theory Spec2Isabelle
  imports Complex_Main
begin

section \<open>Errors\<close>

text \<open>The exceptions the module raises: \<open>ValueError\<close> for rejected arguments,
  \<open>RuntimeError\<close> for the "Invalid checkpointing state" checks, and \<open>AssertionError\<close>
  for a failed \<open>assert\<close>. \<open>IndexError\<close>, \<open>StopIteration\<close> and \<open>ZeroDivisionError\<close> are
  what Python itself raises on an index out of range, on a generator that has ended and
  on a division by zero.\<close>

datatype error =
  ValueError | RuntimeError | AssertionError | IndexError | StopIteration | ZeroDivisionError

section \<open>The step-advance optimizer \<open>n_advance\<close>\<close>

text \<open>The \<open>while\<close> loop of \<open>n_advance\<close> (source lines 66--74), on the loop variables
  \<open>t\<close>, \<open>b_s_tm2\<close>, \<open>b_s_tm1\<close>, \<open>b_s_t\<close>. Python integers are unbounded, \<open>//\<close> is floor
  division, as \<open>div\<close> on \<open>int\<close>. The loop has no bound of its own, so not returning
  is the value \<open>None\<close>.\<close>

partial_function (option) n_advance_loop ::
  "int \<Rightarrow> int \<Rightarrow> int \<Rightarrow> int \<Rightarrow> int \<Rightarrow> int \<Rightarrow> (int \<times> int \<times> int \<times> int) option" where
  "n_advance_loop n snapshots t b_s_tm2 b_s_tm1 b_s_t =
     (if b_s_tm1 \<ge> n \<or> n > b_s_t then
        n_advance_loop n snapshots (t + 1) b_s_tm1 b_s_t
          ((b_s_t * (snapshots + (t + 1))) div (t + 1))
      else Some (t, b_s_tm2, b_s_tm1, b_s_t))"

declare n_advance_loop.simps [code]

definition n_advance :: "int \<Rightarrow> int \<Rightarrow> string \<Rightarrow> (error + int) option" where
  "n_advance n snapshots0 trajectory =
     (if n < 1 then Some (Inl ValueError)
      else if snapshots0 \<le> 0 then Some (Inl ValueError)
      else
        let snapshots = max (min snapshots0 (n - 1)) 1 in
        if snapshots = 1 then Some (Inr (n - 1))
        else if snapshots = n - 1 then Some (Inr 1)
        else
          case n_advance_loop n snapshots 2 1 (snapshots + 1)
                 (((snapshots + 1) * (snapshots + 2)) div 2) of
            None \<Rightarrow> None
          | Some (t, b_s_tm2, b_s_tm1, b_s_t) \<Rightarrow>
              if trajectory = ''maximum'' then
                let b_sm1_tm2 = (b_s_tm2 * snapshots) div (snapshots + t - 2) in
                if n \<le> b_s_tm1 + b_sm1_tm2 then Some (Inr (n - b_s_tm1 + b_s_tm2))
                else
                  let b_sm1_tm1 = (b_s_tm1 * snapshots) div (snapshots + t - 1);
                      b_sm2_tm1 = (b_sm1_tm1 * (snapshots - 1)) div (snapshots + t - 2) in
                  if n \<le> b_s_tm1 + b_sm2_tm1 + b_sm1_tm2 then
                    Some (Inr (b_s_tm2 + b_sm1_tm2))
                  else if n \<le> b_s_tm1 + b_sm1_tm1 + b_sm2_tm1 then
                    Some (Inr (n - b_sm1_tm1 - b_sm2_tm1))
                  else Some (Inr b_s_tm1)
              else if trajectory = ''revolve'' then
                let b_sm1_tm1 = (b_s_tm1 * snapshots) div (snapshots + t - 1);
                    b_sm2_tm1 = (b_sm1_tm1 * (snapshots - 1)) div (snapshots + t - 2) in
                if n \<le> b_s_tm1 + b_sm2_tm1 then Some (Inr b_s_tm2)
                else if n < b_s_tm1 + b_sm1_tm1 + b_sm2_tm1 then
                  Some (Inr (n - b_sm1_tm1 - b_sm2_tm1))
                else Some (Inr b_s_tm1)
              else Some (Inl ValueError))"

section \<open>Actions and traces\<close>

text \<open>The action records handed to the driver. A storage tier is the string the source
  uses, \<open>''RAM''\<close> or \<open>''disk''\<close>.\<close>

datatype action =
    Clear bool bool
  | Configure bool bool
  | Forward int int
  | Reverse int int
  | Read int string bool
  | Write int string
  | EndForward
  | EndReverse bool

text \<open>A schedule is a generator. Driving it is modelled by the list of the actions it
  yields, each with the state of the schedule at that \<open>yield\<close> (what \<open>n()\<close>, \<open>r()\<close>,
  \<open>is_exhausted()\<close> answer when the driver holds the action), and by how the drive
  ends: an exception, or the state reached. \<open>None\<close> is a drive that never returns.\<close>

type_synonym 'st trace = "(action \<times> 'st) list"

type_synonym ('st, 'a) run = "('st trace \<times> (error + 'a)) option"

definition actions :: "'st trace \<Rightarrow> action list" where
  "actions tr = map fst tr"

text \<open>Python indexing of a tuple: a negative index counts from the end.\<close>

definition getitem :: "'a list \<Rightarrow> int \<Rightarrow> error + 'a" where
  "getitem xs i =
     (let len = int (length xs); j = (if i < 0 then len + i else i)
      in if 0 \<le> j \<and> j < len then Inr (xs ! nat j) else Inl IndexError)"

section \<open>The multistage schedule\<close>

text \<open>The fields of \<open>MultistageCheckpointSchedule\<close>; \<open>_n\<close>, \<open>_r\<close> and \<open>_max_n\<close> are
  those of the base class. \<open>_snapshots\<close> is the snapshot stack, its top at the end of
  the list.\<close>

record multistage =
  ms_n :: int
  ms_r :: int
  ms_max_n :: "int option"
  ms_snapshots_in_ram :: int
  ms_snapshots_on_disk :: int
  ms_snapshots :: "int list"
  ms_storage :: "string list"
  ms_exhausted :: bool
  ms_keep_block_0_ics :: bool
  ms_trajectory :: string

text \<open>\<open>iter\<close> checks \<open>_max_n\<close> against \<open>None\<close> once, on entry, and no code of the
  schedule assigns it afterwards; below the entry its value is the parameter \<open>N\<close>.\<close>

text \<open>\<open>_snapshot\<close> (source lines 314--320): push step \<open>n\<close>, return the tier of its slot.\<close>

definition snapshot :: "int \<Rightarrow> multistage \<Rightarrow> int \<Rightarrow> error + (string \<times> multistage)" where
  "snapshot N st n0 =
     (if \<not> (n0 \<ge> 0 \<and> n0 < N) then Inl AssertionError
      else if int (length (ms_snapshots st))
                \<ge> ms_snapshots_in_ram st + ms_snapshots_on_disk st then Inl RuntimeError
      else
        let st' = st\<lparr>ms_snapshots := ms_snapshots st @ [n0]\<rparr> in
        case getitem (ms_storage st') (int (length (ms_snapshots st')) - 1) of
          Inl e \<Rightarrow> Inl e
        | Inr cp_storage \<Rightarrow> Inr (cp_storage, st'))"

text \<open>The forward phase (source lines 211--226).\<close>

function ms_forward :: "int \<Rightarrow> multistage \<Rightarrow> multistage trace \<Rightarrow> (multistage, multistage) run" where
  "ms_forward N st tr =
     (if ms_n st < N - 1 then
        let tr1 = tr @ [(Configure True False, st)];
            snapshots = ms_snapshots_in_ram st + ms_snapshots_on_disk st
                        - int (length (ms_snapshots st));
            n0 = ms_n st
        in case n_advance (N - n0) snapshots (ms_trajectory st) of
             None \<Rightarrow> None
           | Some (Inl e) \<Rightarrow> Some (tr1, Inl e)
           | Some (Inr adv) \<Rightarrow>
               let n1 = n0 + adv in
               if \<not> n1 > n0 then Some (tr1, Inl AssertionError)
               else
                 let st1 = st\<lparr>ms_n := n1\<rparr>;
                     tr2 = tr1 @ [(Forward n0 n1, st1)]
                 in case snapshot N st1 n0 of
                      Inl e \<Rightarrow> Some (tr2, Inl e)
                    | Inr (cp_storage, st2) \<Rightarrow>
                        ms_forward N st2
                          (tr2 @ [(Write n0 cp_storage, st2), (Clear True True, st2)])
      else Some (tr, Inr st))"
  by pat_completeness auto

lemma snapshot_fields:
  assumes "snapshot N st n0 = Inr (cp_storage, st')"
  shows "st' = st\<lparr>ms_snapshots := ms_snapshots st @ [n0]\<rparr>"
  using assms by (auto simp: snapshot_def Let_def split: if_splits sum.splits)

termination ms_forward
  by (relation "measure (\<lambda>(N, st, tr). nat (N - 1 - ms_n st))")
     (auto dest!: snapshot_fields)

declare ms_forward.simps [simp del]

text \<open>The same loop inside the reverse phase (source lines 273--288): the target is
  \<open>max_n - r - 1\<close>.\<close>

function ms_readvance :: "int \<Rightarrow> multistage \<Rightarrow> multistage trace \<Rightarrow> (multistage, multistage) run" where
  "ms_readvance N st tr =
     (if ms_n st < N - ms_r st - 1 then
        let tr1 = tr @ [(Configure True False, st)];
            snapshots = ms_snapshots_in_ram st + ms_snapshots_on_disk st
                        - int (length (ms_snapshots st));
            n0 = ms_n st
        in case n_advance (N - ms_r st - n0) snapshots (ms_trajectory st) of
             None \<Rightarrow> None
           | Some (Inl e) \<Rightarrow> Some (tr1, Inl e)
           | Some (Inr adv) \<Rightarrow>
               let n1 = n0 + adv in
               if \<not> n1 > n0 then Some (tr1, Inl AssertionError)
               else
                 let st1 = st\<lparr>ms_n := n1\<rparr>;
                     tr2 = tr1 @ [(Forward n0 n1, st1)]
                 in case snapshot N st1 n0 of
                      Inl e \<Rightarrow> Some (tr2, Inl e)
                    | Inr (cp_storage, st2) \<Rightarrow>
                        ms_readvance N st2
                          (tr2 @ [(Write n0 cp_storage, st2), (Clear True True, st2)])
      else Some (tr, Inr st))"
  by pat_completeness auto

termination ms_readvance
  by (relation "measure (\<lambda>(N, st, tr). nat (N - ms_r st - 1 - ms_n st))")
     (auto dest!: snapshot_fields)

declare ms_readvance.simps [simp del]

text \<open>The first half of a turn of the reverse loop (source lines 246--290): read the
  top snapshot and, unless it is the step the adjoint needs, run forward from it.\<close>

definition ms_restore :: "int \<Rightarrow> multistage \<Rightarrow> multistage trace \<Rightarrow> (multistage, multistage) run" where
  "ms_restore N st tr =
     (if length (ms_snapshots st) = 0 then Some (tr, Inl RuntimeError)
      else
        let cp_n = last (ms_snapshots st) in
        case getitem (ms_storage st) (int (length (ms_snapshots st)) - 1) of
          Inl e \<Rightarrow> Some (tr, Inl e)
        | Inr cp_storage \<Rightarrow>
            if cp_n = N - ms_r st - 1 then
              let st1 = st\<lparr>ms_snapshots := butlast (ms_snapshots st), ms_n := cp_n\<rparr>
              in Some (tr @ [(Read cp_n cp_storage True, st1), (Clear True True, st1)], Inr st1)
            else
              let st1 = st\<lparr>ms_n := cp_n\<rparr>;
                  tr1 = tr @ [(Read cp_n cp_storage False, st1), (Clear True True, st1),
                              (Configure False False, st1)];
                  snapshots = ms_snapshots_in_ram st1 + ms_snapshots_on_disk st1
                              - int (length (ms_snapshots st1)) + 1;
                  n0 = ms_n st1
              in case n_advance (N - ms_r st1 - n0) snapshots (ms_trajectory st1) of
                   None \<Rightarrow> None
                 | Some (Inl e) \<Rightarrow> Some (tr1, Inl e)
                 | Some (Inr adv) \<Rightarrow>
                     let n1 = n0 + adv in
                     if \<not> n1 > n0 then Some (tr1, Inl AssertionError)
                     else
                       let st2 = st1\<lparr>ms_n := n1\<rparr>;
                           tr2 = tr1 @ [(Forward n0 n1, st2), (Clear True True, st2)]
                       in case ms_readvance N st2 tr2 of
                            None \<Rightarrow> None
                          | Some (tr3, Inl e) \<Rightarrow> Some (tr3, Inl e)
                          | Some (tr3, Inr st3) \<Rightarrow>
                              if ms_n st3 \<noteq> N - ms_r st3 - 1 then Some (tr3, Inl RuntimeError)
                              else Some (tr3, Inr st3))"

text \<open>The second half (source lines 292--299): one forward step with the data stored,
  then the adjoint step.\<close>

definition ms_adjoint :: "multistage \<Rightarrow> multistage trace \<Rightarrow> multistage trace \<times> multistage" where
  "ms_adjoint st tr =
     (let tr1 = tr @ [(Configure (ms_keep_block_0_ics st \<and> ms_n st = 0) True, st)];
          st1 = st\<lparr>ms_n := ms_n st + 1\<rparr>;
          tr2 = tr1 @ [(Forward (ms_n st1 - 1) (ms_n st1), st1)];
          st2 = st1\<lparr>ms_r := ms_r st1 + 1\<rparr>;
          tr3 = tr2 @ [(Reverse (ms_n st2) (ms_n st2 - 1), st2),
                       (Clear (\<not> ms_keep_block_0_ics st2 \<or> ms_n st2 \<noteq> 1) True, st2)]
      in (tr3, st2))"

lemma ms_readvance_r:
  "ms_readvance N st tr = Some (tr', Inr st') \<Longrightarrow> ms_r st' = ms_r st"
proof (induction N st tr rule: ms_readvance.induct)
  case (1 N st tr)
  show ?case
  proof (cases "ms_n st < N - ms_r st - 1")
    case False
    then show ?thesis using "1.prems" by (simp add: ms_readvance.simps[of N st tr])
  next
    case True
    then show ?thesis using "1.prems" "1.IH"
      by (subst (asm) ms_readvance.simps)
         (auto simp: Let_def split: option.splits sum.splits if_splits prod.splits
               dest!: snapshot_fields)
  qed
qed

lemma ms_restore_r:
  "ms_restore N st tr = Some (tr', Inr st') \<Longrightarrow> ms_r st' = ms_r st"
  by (auto simp: ms_restore_def Let_def split: if_splits sum.splits option.splits prod.splits
           dest!: ms_readvance_r)

lemma ms_adjoint_r: "ms_adjoint st tr = (tr', st') \<Longrightarrow> ms_r st' = ms_r st + 1"
  by (auto simp: ms_adjoint_def Let_def)

text \<open>The reverse loop (source lines 245--299).\<close>

function ms_reverse :: "int \<Rightarrow> multistage \<Rightarrow> multistage trace \<Rightarrow> (multistage, multistage) run" where
  "ms_reverse N st tr =
     (if ms_r st < N then
        case ms_restore N st tr of
          None \<Rightarrow> None
        | Some (tr1, Inl e) \<Rightarrow> Some (tr1, Inl e)
        | Some (tr1, Inr st1) \<Rightarrow>
            (case ms_adjoint st1 tr1 of (tr2, st2) \<Rightarrow> ms_reverse N st2 tr2)
      else Some (tr, Inr st))"
  by pat_completeness auto

termination ms_reverse
  by (relation "measure (\<lambda>(N, st, tr). nat (N - ms_r st))")
     (auto dest!: ms_restore_r ms_adjoint_r[OF sym])

declare ms_reverse.simps [simp del]

text \<open>From forward to reverse (source lines 232--241): the last forward step with its
  data stored, \<open>EndForward\<close>, and the first adjoint step.\<close>

definition ms_turn :: "multistage \<Rightarrow> multistage trace \<Rightarrow> multistage trace \<times> multistage" where
  "ms_turn st tr =
     (let tr1 = tr @ [(Configure (ms_keep_block_0_ics st \<and> ms_n st = 0) True, st)];
          st1 = st\<lparr>ms_n := ms_n st + 1\<rparr>;
          tr2 = tr1 @ [(Forward (ms_n st1 - 1) (ms_n st1), st1), (EndForward, st1)];
          st2 = st1\<lparr>ms_r := ms_r st1 + 1\<rparr>;
          tr3 = tr2 @ [(Reverse (ms_n st2) (ms_n st2 - 1), st2),
                       (Clear (\<not> ms_keep_block_0_ics st2 \<or> ms_n st2 \<noteq> 1) True, st2)]
      in (tr3, st2))"

text \<open>After the reverse loop (source lines 300--306): the two checks, and
  \<open>EndReverse(True)\<close>.\<close>

definition ms_end :: "int \<Rightarrow> multistage \<Rightarrow> multistage trace \<Rightarrow> (multistage, multistage) run" where
  "ms_end N st tr =
     (if ms_r st \<noteq> N then Some (tr, Inl RuntimeError)
      else if length (ms_snapshots st) \<noteq> 0 then Some (tr, Inl RuntimeError)
      else
        let st1 = st\<lparr>ms_exhausted := True\<rparr>
        in Some (tr @ [(EndReverse True, st1)], Inr st1))"

text \<open>\<open>MultistageCheckpointSchedule.iter\<close> (source lines 206--306), driven until it has
  yielded \<open>EndReverse\<close> or raised.\<close>

definition multistage_iter :: "multistage \<Rightarrow> (multistage, multistage) run" where
  "multistage_iter st =
     (case ms_max_n st of
        None \<Rightarrow> Some ([], Inl RuntimeError)
      | Some N \<Rightarrow>
         (case ms_forward N st [] of
            None \<Rightarrow> None
          | Some (tr1, Inl e) \<Rightarrow> Some (tr1, Inl e)
          | Some (tr1, Inr st1) \<Rightarrow>
              if ms_n st1 \<noteq> N - 1 then Some (tr1, Inl RuntimeError)
              else
                (case ms_turn st1 tr1 of
                   (tr2, st2) \<Rightarrow>
                     (case ms_reverse N st2 tr2 of
                        None \<Rightarrow> None
                      | Some (tr3, Inl e) \<Rightarrow> Some (tr3, Inl e)
                      | Some (tr3, Inr st3) \<Rightarrow> ms_end N st3 tr3))))"

definition is_exhausted :: "multistage \<Rightarrow> bool" where
  "is_exhausted st = ms_exhausted st"


section \<open>Construction and the tier allocator\<close>

text \<open>Modelled from the spec: the base class \<open>CheckpointSchedule\<close> is not among the
  sources. Its constructor creates the counters every schedule shares (spec section 3,
  "Schedule state"): the forward cursor \<open>n = 0\<close>, the reverse cursor \<open>r = 0\<close> (no adjoint
  step completed) and \<open>max_n\<close> as given, \<open>None\<close> when the step count is not known yet.\<close>

definition base_init :: "int option \<Rightarrow> int \<times> int \<times> int option" where
  "base_init max_n = (0, 0, max_n)"

text \<open>\<open>weights[i] += w\<close> on a Python list, and the slice \<open>xs[:k]\<close> (a negative \<open>k\<close> counts
  from the end).\<close>

definition additem :: "real list \<Rightarrow> int \<Rightarrow> real \<Rightarrow> error + real list" where
  "additem xs i w =
     (let len = int (length xs); j = (if i < 0 then len + i else i)
      in if 0 \<le> j \<and> j < len then Inr (xs[nat j := xs ! nat j + w]) else Inl IndexError)"

definition slice_to :: "'a list \<Rightarrow> int \<Rightarrow> 'a list" where
  "slice_to xs k = (if k < 0 then take (nat (int (length xs) + k)) xs else take (nat k) xs)"

text \<open>\<open>sorted(xs, key=f, reverse=True)\<close>: descending by key, and stable. CPython reverses
  the list, sorts it with its stable ascending sort, and reverses the result.\<close>

definition sorted_reverse :: "('a \<Rightarrow> 'k::linorder) \<Rightarrow> 'a list \<Rightarrow> 'a list" where
  "sorted_reverse f xs = rev (sort_key f (rev xs))"

text \<open>The handlers \<open>action_read\<close>, \<open>action_write\<close> and \<open>action_end_reverse\<close> of
  \<open>allocate_snapshots\<close> (source lines 123--154) on the variables \<open>weights\<close> and
  \<open>snapshot_i\<close>. Weights are Python floats, modelled as reals (the sums of the default
  weights \<open>1.0\<close>, \<open>1.0\<close>, \<open>0.0\<close> are exact).\<close>

fun action_handler ::
  "int \<Rightarrow> real \<Rightarrow> real \<Rightarrow> real \<Rightarrow> action \<Rightarrow> real list \<times> int \<Rightarrow> error + real list \<times> int" where
  "action_handler snapshots write_weight read_weight delete_weight (Read n storage delete)
       (weights, snapshot_i) =
     (if snapshot_i < 0 then Inl RuntimeError
      else case additem weights snapshot_i read_weight of
             Inl e \<Rightarrow> Inl e
           | Inr weights1 \<Rightarrow>
               if delete then
                 (case additem weights1 snapshot_i delete_weight of
                    Inl e \<Rightarrow> Inl e
                  | Inr weights2 \<Rightarrow> Inr (weights2, snapshot_i - 1))
               else Inr (weights1, snapshot_i))"
| "action_handler snapshots write_weight read_weight delete_weight (Write n storage)
       (weights, snapshot_i) =
     (let snapshot_i1 = snapshot_i + 1 in
      if snapshot_i1 \<ge> snapshots then Inl RuntimeError
      else case additem weights snapshot_i1 write_weight of
             Inl e \<Rightarrow> Inl e
           | Inr weights1 \<Rightarrow> Inr (weights1, snapshot_i1))"
| "action_handler snapshots write_weight read_weight delete_weight a (weights, snapshot_i) =
     Inr (weights, snapshot_i)"

text \<open>The \<open>while True\<close> loop (source lines 156--160) over the actions the dry schedule
  yields; \<open>out\<close> is how the schedule's drive ends. An exception of the schedule reaches
  the allocator when the actions before it have been handled; a generator that ends
  without \<open>EndReverse\<close> would raise \<open>StopIteration\<close>.\<close>

fun dry_run ::
  "int \<Rightarrow> real \<Rightarrow> real \<Rightarrow> real \<Rightarrow> action list \<Rightarrow> error + 'st \<Rightarrow> real list \<times> int
     \<Rightarrow> error + real list \<times> int" where
  "dry_run snapshots ww rw dw [] out acc =
     (case out of Inl e \<Rightarrow> Inl e | Inr st \<Rightarrow> Inl StopIteration)"
| "dry_run snapshots ww rw dw (a # as) out acc =
     (case action_handler snapshots ww rw dw a acc of
        Inl e \<Rightarrow> Inl e
      | Inr acc1 \<Rightarrow>
          (case a of
             EndReverse exhausted \<Rightarrow> Inr acc1
           | _ \<Rightarrow> dry_run snapshots ww rw dw as out acc1))"

text \<open>The allocation (source lines 164--167).\<close>

definition allocation_of :: "real list \<Rightarrow> int \<Rightarrow> int \<Rightarrow> string list" where
  "allocation_of weights snapshots snapshots_in_ram =
     foldl (\<lambda>allocation i. allocation[i := ''RAM''])
       (replicate (nat snapshots) ''disk'')
       (slice_to (map fst (sorted_reverse snd (enumerate 0 weights))) snapshots_in_ram)"

text \<open>\<open>MultistageCheckpointSchedule.__init__\<close> (source lines 186--204) and
  \<open>allocate_snapshots\<close> (source lines 103--169) call each other: the constructor asks
  the allocator when both tiers hold snapshots, and the allocator constructs its dry
  schedule with no snapshot on disk.\<close>

function multistage_init ::
    "int option \<Rightarrow> int \<Rightarrow> int \<Rightarrow> bool \<Rightarrow> string \<Rightarrow> (error + multistage) option"
  and allocate_snapshots ::
    "int option \<Rightarrow> int \<Rightarrow> int \<Rightarrow> real \<Rightarrow> real \<Rightarrow> real \<Rightarrow> string
       \<Rightarrow> (error + real list \<times> string list) option" where
  "multistage_init max_n snapshots_in_ram snapshots_on_disk keep_block_0_ics trajectory =
     (case (if snapshots_in_ram = 0 then
              Some (Inr (replicate (nat snapshots_on_disk) ''disk''))
            else if snapshots_on_disk = 0 then
              Some (Inr (replicate (nat snapshots_in_ram) ''RAM''))
            else
              (case allocate_snapshots max_n snapshots_in_ram snapshots_on_disk 1 1 0
                      trajectory of
                 None \<Rightarrow> None
               | Some (Inl e) \<Rightarrow> Some (Inl e)
               | Some (Inr (weights, storage)) \<Rightarrow> Some (Inr storage))) of
        None \<Rightarrow> None
      | Some (Inl e) \<Rightarrow> Some (Inl e)
      | Some (Inr storage) \<Rightarrow>
          (case base_init max_n of
             (n0, r0, max_n0) \<Rightarrow>
               Some (Inr \<lparr>ms_n = n0, ms_r = r0, ms_max_n = max_n0,
                          ms_snapshots_in_ram = snapshots_in_ram,
                          ms_snapshots_on_disk = snapshots_on_disk,
                          ms_snapshots = [], ms_storage = storage, ms_exhausted = False,
                          ms_keep_block_0_ics = keep_block_0_ics,
                          ms_trajectory = trajectory\<rparr>)))"
| "allocate_snapshots max_n snapshots_in_ram snapshots_on_disk write_weight read_weight
       delete_weight trajectory =
     (let snapshots = snapshots_in_ram + snapshots_on_disk;
          weights = replicate (nat snapshots) 0
      in case multistage_init max_n snapshots 0 False trajectory of
           None \<Rightarrow> None
         | Some (Inl e) \<Rightarrow> Some (Inl e)
         | Some (Inr cp_schedule) \<Rightarrow>
             (case multistage_iter cp_schedule of
                None \<Rightarrow> None
              | Some (tr, out) \<Rightarrow>
                  (case dry_run snapshots write_weight read_weight delete_weight
                          (actions tr) out (weights, - 1) of
                     Inl e \<Rightarrow> Some (Inl e)
                   | Inr (weights1, snapshot_i) \<Rightarrow>
                       if snapshot_i \<noteq> - 1 then Some (Inl AssertionError)
                       else Some (Inr (weights1,
                              allocation_of weights1 snapshots snapshots_in_ram)))))"
  by pat_completeness auto

termination
  by (relation "measure (\<lambda>x. case x of
        Inl (max_n, snapshots_in_ram, snapshots_on_disk, keep, trajectory) \<Rightarrow>
          (if snapshots_in_ram = 0 \<or> snapshots_on_disk = 0 then 0 else 2)
      | Inr y \<Rightarrow> 1)") auto

declare multistage_init.simps [simp del]

declare allocate_snapshots.simps [simp del]

section \<open>The two-level schedule\<close>

record twolevel =
  tl_n :: int
  tl_r :: int
  tl_max_n :: "int option"
  tl_period :: int
  tl_binomial_snapshots :: int
  tl_binomial_storage :: string
  tl_keep_block_0_ics :: bool
  tl_trajectory :: string

text \<open>\<open>TwoLevelCheckpointSchedule.__init__\<close> (source lines 340--351).\<close>

definition twolevel_init :: "int \<Rightarrow> int \<Rightarrow> string \<Rightarrow> bool \<Rightarrow> string \<Rightarrow> error + twolevel" where
  "twolevel_init disk_period binomial_snapshots binomial_storage keep_block_0_ics
       binomial_trajectory =
     (if disk_period < 1 then Inl ValueError
      else if binomial_storage \<notin> set [''RAM'', ''disk''] then Inl ValueError
      else
        case base_init None of
          (n0, r0, max_n0) \<Rightarrow>
            Inr \<lparr>tl_n = n0, tl_r = r0, tl_max_n = max_n0, tl_period = disk_period,
                 tl_binomial_snapshots = binomial_snapshots,
                 tl_binomial_storage = binomial_storage,
                 tl_keep_block_0_ics = keep_block_0_ics,
                 tl_trajectory = binomial_trajectory\<rparr>)"

text \<open>Modelled from the spec: \<open>finalize\<close> belongs to the base class, which is not among
  the sources. The driver calls it to signal that the forward sweep is complete, which
  fixes \<open>max_n\<close> (spec sections 3 and 4.5).\<close>

definition finalize :: "int \<Rightarrow> twolevel \<Rightarrow> twolevel" where
  "finalize N st = st\<lparr>tl_max_n := Some N\<rparr>"

text \<open>What the driver does during one turn of the forward loop: nothing, or a call of
  \<open>finalize\<close> while it holds the \<open>Configure\<close> action (the source calls that
  unexpected) or while it holds the \<open>Forward\<close> action (where the source permits it).\<close>

datatype driver = NotFinalized | AtConfigure int | AtForward int

text \<open>The forward loop (source lines 356--369), for the driver's behaviour turn by
  turn; a driver that asks for no more actions ends the list.\<close>

fun tl_forward ::
  "twolevel \<Rightarrow> driver list \<Rightarrow> twolevel trace \<Rightarrow> twolevel trace \<times> (error + twolevel)" where
  "tl_forward st [] tr = (tr, Inr st)"
| "tl_forward st (d # ds) tr =
     (if tl_max_n st = None then
        let tr1 = tr @ [(Configure True False, st)];
            st0 = (case d of AtConfigure N \<Rightarrow> finalize N st | _ \<Rightarrow> st)
        in if tl_max_n st0 \<noteq> None then (tr1, Inl RuntimeError)
           else
             let n0 = tl_n st0;
                 n1 = n0 + tl_period st0;
                 st1 = st0\<lparr>tl_n := n1\<rparr>;
                 tr2 = tr1 @ [(Forward n0 n1, st1)];
                 st2 = (case d of AtForward N \<Rightarrow> finalize N st1 | _ \<Rightarrow> st1);
                 tr3 = tr2 @ [(Write n0 ''disk'', st2), (Clear True True, st2)]
             in tl_forward st2 ds tr3
      else (tr, Inr st))"

text \<open>The inner advance loop of the reverse sweep (source lines 418--436); \<open>snapshots\<close>
  is the local stack of the period.\<close>

function tl_readvance ::
  "int \<Rightarrow> twolevel \<Rightarrow> int list \<Rightarrow> twolevel trace \<Rightarrow> (twolevel, twolevel \<times> int list) run" where
  "tl_readvance N st snapshots tr =
     (if tl_n st < N - tl_r st - 1 then
        let tr1 = tr @ [(Configure True False, st)];
            n_snapshots = tl_binomial_snapshots st + 1 - int (length snapshots);
            n0 = tl_n st
        in case n_advance (N - tl_r st - n0) n_snapshots (tl_trajectory st) of
             None \<Rightarrow> None
           | Some (Inl e) \<Rightarrow> Some (tr1, Inl e)
           | Some (Inr adv) \<Rightarrow>
               let n1 = n0 + adv in
               if \<not> n1 > n0 then Some (tr1, Inl AssertionError)
               else
                 let st1 = st\<lparr>tl_n := n1\<rparr>;
                     tr2 = tr1 @ [(Forward n0 n1, st1)]
                 in if int (length snapshots) \<ge> tl_binomial_snapshots st1 + 1 then
                      Some (tr2, Inl RuntimeError)
                    else
                      tl_readvance N st1 (snapshots @ [n0])
                        (tr2 @ [(Write n0 (tl_binomial_storage st1), st1),
                                (Clear True True, st1)])
      else Some (tr, Inr (st, snapshots)))"
  by pat_completeness auto

termination tl_readvance
  by (relation "measure (\<lambda>(N, st, snapshots, tr). nat (N - tl_r st - 1 - tl_n st))") auto

declare tl_readvance.simps [simp del]

text \<open>The first half of a turn of the period loop (source lines 386--438).\<close>

definition tl_restore ::
  "int \<Rightarrow> int \<Rightarrow> twolevel \<Rightarrow> int list \<Rightarrow> twolevel trace \<Rightarrow> (twolevel, twolevel \<times> int list) run" where
  "tl_restore N n0s st snapshots tr =
     (if length snapshots = 0 then Some (tr, Inl RuntimeError)
      else
        let cp_n = last snapshots in
        if cp_n = N - tl_r st - 1 then
          let snapshots1 = butlast snapshots;
              st1 = st\<lparr>tl_n := cp_n\<rparr>;
              tr1 = tr @ [(if cp_n = n0s then Read cp_n ''disk'' False
                           else Read cp_n (tl_binomial_storage st1) True, st1),
                          (Clear True True, st1)]
          in Some (tr1, Inr (st1, snapshots1))
        else
          let st1 = st\<lparr>tl_n := cp_n\<rparr>;
              tr1 = tr @ [(if cp_n = n0s then Read cp_n ''disk'' False
                           else Read cp_n (tl_binomial_storage st1) False, st1),
                          (Clear True True, st1), (Configure False False, st1)];
              n_snapshots = tl_binomial_snapshots st1 + 1 - int (length snapshots) + 1;
              n0 = tl_n st1
          in case n_advance (N - tl_r st1 - n0) n_snapshots (tl_trajectory st1) of
               None \<Rightarrow> None
             | Some (Inl e) \<Rightarrow> Some (tr1, Inl e)
             | Some (Inr adv) \<Rightarrow>
                 let n1 = n0 + adv in
                 if \<not> n1 > n0 then Some (tr1, Inl AssertionError)
                 else
                   let st2 = st1\<lparr>tl_n := n1\<rparr>;
                       tr2 = tr1 @ [(Forward n0 n1, st2), (Clear True True, st2)]
                   in case tl_readvance N st2 snapshots tr2 of
                        None \<Rightarrow> None
                      | Some (tr3, Inl e) \<Rightarrow> Some (tr3, Inl e)
                      | Some (tr3, Inr (st3, snapshots3)) \<Rightarrow>
                          if tl_n st3 \<noteq> N - tl_r st3 - 1 then Some (tr3, Inl RuntimeError)
                          else Some (tr3, Inr (st3, snapshots3)))"

text \<open>The second half (source lines 440--447).\<close>

definition tl_adjoint :: "twolevel \<Rightarrow> twolevel trace \<Rightarrow> twolevel trace \<times> twolevel" where
  "tl_adjoint st tr =
     (let tr1 = tr @ [(Configure (tl_keep_block_0_ics st \<and> tl_n st = 0) True, st)];
          st1 = st\<lparr>tl_n := tl_n st + 1\<rparr>;
          tr2 = tr1 @ [(Forward (tl_n st1 - 1) (tl_n st1), st1)];
          st2 = st1\<lparr>tl_r := tl_r st1 + 1\<rparr>;
          tr3 = tr2 @ [(Reverse (tl_n st2) (tl_n st2 - 1), st2),
                       (Clear (\<not> tl_keep_block_0_ics st2 \<or> tl_n st2 \<noteq> 1) True, st2)]
      in (tr3, st2))"

lemma tl_readvance_r:
  "tl_readvance N st snapshots tr = Some (tr', Inr (st', snapshots')) \<Longrightarrow> tl_r st' = tl_r st"
proof (induction N st snapshots tr rule: tl_readvance.induct)
  case (1 N st snapshots tr)
  show ?case
  proof (cases "tl_n st < N - tl_r st - 1")
    case False
    then show ?thesis using "1.prems" by (simp add: tl_readvance.simps[of N st snapshots tr])
  next
    case True
    then show ?thesis using "1.prems" "1.IH"
      by (subst (asm) tl_readvance.simps)
         (auto simp: Let_def split: option.splits sum.splits if_splits)
  qed
qed

lemma tl_restore_r:
  "tl_restore N n0s st snapshots tr = Some (tr', Inr (st', snapshots')) \<Longrightarrow> tl_r st' = tl_r st"
  by (auto simp: tl_restore_def Let_def split: if_splits sum.splits option.splits prod.splits
           dest!: tl_readvance_r)

lemma tl_adjoint_r: "tl_adjoint st tr = (tr', st') \<Longrightarrow> tl_r st' = tl_r st + 1"
  by (auto simp: tl_adjoint_def Let_def)

text \<open>The period loop (source lines 385--447).\<close>

function tl_period_loop ::
  "int \<Rightarrow> int \<Rightarrow> twolevel \<Rightarrow> int list \<Rightarrow> twolevel trace \<Rightarrow> (twolevel, twolevel \<times> int list) run" where
  "tl_period_loop N n0s st snapshots tr =
     (if tl_r st < N - n0s then
        case tl_restore N n0s st snapshots tr of
          None \<Rightarrow> None
        | Some (tr1, Inl e) \<Rightarrow> Some (tr1, Inl e)
        | Some (tr1, Inr (st1, snapshots1)) \<Rightarrow>
            (case tl_adjoint st1 tr1 of
               (tr2, st2) \<Rightarrow> tl_period_loop N n0s st2 snapshots1 tr2)
      else Some (tr, Inr (st, snapshots)))"
  by pat_completeness auto

termination tl_period_loop
  by (relation "measure (\<lambda>(N, n0s, st, snapshots, tr). nat (N - n0s - tl_r st))")
     (auto dest!: tl_restore_r tl_adjoint_r[OF sym])

declare tl_period_loop.simps [simp del]

lemma tl_period_loop_r:
  "tl_period_loop N n0s st snapshots tr = Some (tr', Inr (st', snapshots')) \<Longrightarrow>
     tl_r st < tl_r st' \<or> (st' = st \<and> snapshots' = snapshots)"
proof (induction N n0s st snapshots tr rule: tl_period_loop.induct)
  case (1 N n0s st snapshots tr)
  show ?case
  proof (cases "tl_r st < N - n0s")
    case False
    then show ?thesis using "1.prems"
      by (simp add: tl_period_loop.simps[of N n0s st snapshots tr])
  next
    case True
    from "1.prems" True obtain tr1 st1 snapshots1 tr2 st2 where
      R: "tl_restore N n0s st snapshots tr = Some (tr1, Inr (st1, snapshots1))"
      and A: "tl_adjoint st1 tr1 = (tr2, st2)"
      and L: "tl_period_loop N n0s st2 snapshots1 tr2 = Some (tr', Inr (st', snapshots'))"
      by (subst (asm) tl_period_loop.simps)
         (auto split: option.splits sum.splits prod.splits)
    have "tl_r st2 = tl_r st + 1" using tl_restore_r[OF R] tl_adjoint_r[OF A] by simp
    moreover have "tl_r st2 < tl_r st' \<or> (st' = st2 \<and> snapshots' = snapshots1)"
      using "1.IH"[OF True R refl refl refl A[symmetric] L] by simp
    ultimately show ?thesis by auto
  qed
qed

text \<open>The loop over the periods (source lines 376--451), last period first.\<close>

function tl_reverse :: "int \<Rightarrow> twolevel \<Rightarrow> twolevel trace \<Rightarrow> (twolevel, twolevel) run" where
  "tl_reverse N st tr =
     (if tl_r st < N then
        if tl_period st = 0 then Some (tr, Inl ZeroDivisionError)
        else
          let n = N - tl_r st - 1;
              n0s = (n div tl_period st) * tl_period st;
              n1s = min (n0s + tl_period st) N
          in if tl_r st \<noteq> N - n1s then Some (tr, Inl RuntimeError)
             else
               case tl_period_loop N n0s st [n0s] tr of
                 None \<Rightarrow> None
               | Some (tr1, Inl e) \<Rightarrow> Some (tr1, Inl e)
               | Some (tr1, Inr (st1, snapshots1)) \<Rightarrow>
                   if tl_r st1 \<noteq> N - n0s then Some (tr1, Inl RuntimeError)
                   else if length snapshots1 \<noteq> 0 then Some (tr1, Inl RuntimeError)
                   else tl_reverse N st1 tr1
      else Some (tr, Inr st))"
  by pat_completeness auto

termination tl_reverse
  by (relation "measure (\<lambda>(N, st, tr). nat (N - tl_r st))")
     (auto dest!: tl_period_loop_r)

declare tl_reverse.simps [simp del]

text \<open>One turn of the \<open>while True\<close> loop (source lines 373--458): a complete reverse
  sweep, the reset of \<open>r\<close>, and \<open>EndReverse(False)\<close>.\<close>

definition tl_sweep :: "int \<Rightarrow> twolevel \<Rightarrow> twolevel trace \<Rightarrow> (twolevel, twolevel) run" where
  "tl_sweep N st tr =
     (case tl_reverse N st tr of
        None \<Rightarrow> None
      | Some (tr1, Inl e) \<Rightarrow> Some (tr1, Inl e)
      | Some (tr1, Inr st1) \<Rightarrow>
          if tl_r st1 \<noteq> N then Some (tr1, Inl RuntimeError)
          else
            let st2 = st1\<lparr>tl_r := 0\<rparr>
            in Some (tr1 @ [(EndReverse False, st2)], Inr st2))"

text \<open>The \<open>while True\<close> loop, for a driver that stops after \<open>m\<close> reverse sweeps: the
  actions of the sweeps, one after the other.\<close>

fun tl_sweeps :: "nat \<Rightarrow> int \<Rightarrow> twolevel \<Rightarrow> (twolevel, twolevel) run" where
  "tl_sweeps 0 N st = Some ([], Inr st)"
| "tl_sweeps (Suc m) N st =
     (case tl_sweep N st [] of
        None \<Rightarrow> None
      | Some (tr1, Inl e) \<Rightarrow> Some (tr1, Inl e)
      | Some (tr1, Inr st1) \<Rightarrow>
          (case tl_sweeps m N st1 of
             None \<Rightarrow> None
           | Some (tr2, out) \<Rightarrow> Some (tr1 @ tr2, out)))"

text \<open>\<open>TwoLevelCheckpointSchedule.iter\<close> (source lines 353--458), for a driver that
  behaves as \<open>ds\<close> during the forward sweep and then asks for \<open>m\<close> reverse sweeps. A
  forward loop left with \<open>max_n\<close> still \<open>None\<close> is a driver that stopped asking.\<close>

definition twolevel_iter :: "twolevel \<Rightarrow> driver list \<Rightarrow> nat \<Rightarrow> (twolevel, twolevel) run" where
  "twolevel_iter st ds m =
     (case tl_forward st ds [] of
        (tr, Inl e) \<Rightarrow> Some (tr, Inl e)
      | (tr, Inr st1) \<Rightarrow>
          (case tl_max_n st1 of
             None \<Rightarrow> Some (tr, Inr st1)
           | Some N \<Rightarrow>
               (case tl_sweeps m N st1 of
                  None \<Rightarrow> None
                | Some (tr2, out) \<Rightarrow> Some (tr @ [(EndForward, st1)] @ tr2, out))))"

definition twolevel_is_exhausted :: "twolevel \<Rightarrow> bool" where
  "twolevel_is_exhausted st = False"

section \<open>Properties of \<open>n_advance\<close>\<close>

text \<open>One more turn of the loop strictly increases \<open>b_s_t\<close>, although the
  division is a floor division.\<close>

lemma div_step_gt:
  fixes b s t :: int
  assumes "1 \<le> s" "2 \<le> t" "s + t \<le> b"
  shows "b < (b * (s + (t + 1))) div (t + 1)"
proof -
  have eq: "b * (s + (t + 1)) = b * s + b * (t + 1)" by (simp add: algebra_simps)
  have pos: "0 < t + 1" using assms by simp
  have "(b * s + b * (t + 1)) div (t + 1) = (b * s) div (t + 1) + b"
    using pos by simp
  moreover have "t + 1 \<le> b * s"
  proof -
    have "b * 1 \<le> b * s" using assms by (intro mult_left_mono) auto
    then have "b \<le> b * s" by simp
    then show ?thesis using assms by linarith
  qed
  then have "0 < (b * s) div (t + 1)"
    using pos_imp_zdiv_pos_iff[OF pos, of "b * s"] by blast
  ultimately show ?thesis using eq by simp
qed

text \<open>From every state that keeps the bounds below, the loop returns, with
  \<open>b_s_tm2 < b_s_tm1 < n \<le> b_s_t\<close>.\<close>

lemma n_advance_loop_total:
  fixes n s :: int
  assumes "1 \<le> s" "2 \<le> t" "1 \<le> b2" "b2 < b1" "b1 < n" "b1 < b0"
    "s + t - 1 \<le> b1" "s + t \<le> b0"
  shows "\<exists>t' c2 c1 c0. n_advance_loop n s t b2 b1 b0 = Some (t', c2, c1, c0)
           \<and> 2 \<le> t' \<and> 1 \<le> c2 \<and> c2 < c1 \<and> c1 < n \<and> n \<le> c0 \<and> s + t' - 1 \<le> c1"
  using assms
proof (induction "nat (n - b0)" arbitrary: t b2 b1 b0 rule: less_induct)
  case less
  show ?case
  proof (cases "n > b0")
    case False
    then show ?thesis using less.prems
      by (subst n_advance_loop.simps) simp
  next
    case True
    let ?b = "(b0 * (s + (t + 1))) div (t + 1)"
    have gt: "b0 < ?b" using less.prems by (intro div_step_gt) auto
    have "nat (n - ?b) < nat (n - b0)" using gt True by simp
    from less.hyps[OF this, of "t + 1" b1 b0] less.prems True gt
    obtain t' c2 c1 c0 where
      "n_advance_loop n s (t + 1) b1 b0 ?b = Some (t', c2, c1, c0)"
      "2 \<le> t'" "1 \<le> c2" "c2 < c1" "c1 < n" "n \<le> c0" "s + t' - 1 \<le> c1"
      by auto
    then show ?thesis using True
      by (subst n_advance_loop.simps) simp
  qed
qed

text \<open>The general case (two or more snapshots, fewer than \<open>n - 1\<close>).\<close>

lemma n_advance_general:
  fixes n s :: int
  assumes "2 \<le> s" "s < n - 1" "trajectory = ''maximum'' \<or> trajectory = ''revolve''"
  shows "\<exists>r. n_advance n s trajectory = Some (Inr r) \<and> 0 < r \<and> r < n"
proof -
  have init: "s + 1 < ((s + 1) * (s + 2)) div 2"
  proof -
    have "2 * s \<le> s * s" using assms(1) by (intro mult_right_mono) auto
    moreover have "(s + 1) * (s + 2) = s * s + 3 * s + 2" by (simp add: algebra_simps)
    ultimately have "(s + 1) * (s + 2) = s * s + 3 * s + 2 \<and> 2 * s \<le> s * s" by simp
    then show ?thesis using assms(1) by (simp only:) linarith
  qed
  obtain t c2 c1 c0 where
    L: "n_advance_loop n s 2 1 (s + 1) (((s + 1) * (s + 2)) div 2) = Some (t, c2, c1, c0)"
    and I: "2 \<le> t" "1 \<le> c2" "c2 < c1" "c1 < n" "n \<le> c0" "s + t - 1 \<le> c1"
    using n_advance_loop_total[of s 2 1 "s + 1" n "((s + 1) * (s + 2)) div 2"] assms init
    by auto
  define p where "p = (c2 * s) div (s + t - 2)"
  define q where "q = (c1 * s) div (s + t - 1)"
  define u where "u = (q * (s - 1)) div (s + t - 2)"
  have d1: "0 < s + t - 2" and d2: "0 < s + t - 1" using assms I by auto
  have p0: "0 \<le> p" unfolding p_def using d1 I assms by (simp add: pos_imp_zdiv_nonneg_iff)
  have q1: "1 \<le> q"
  proof -
    have "c1 * 1 \<le> c1 * s" using I assms by (intro mult_left_mono) auto
    then have "c1 \<le> c1 * s" by simp
    then have "s + t - 1 \<le> c1 * s" using I by linarith
    then have "0 < (c1 * s) div (s + t - 1)"
      using pos_imp_zdiv_pos_iff[OF d2, of "c1 * s"] by blast
    then show ?thesis unfolding q_def by simp
  qed
  have qle: "q \<le> c1"
  proof -
    have "c1 * s \<le> c1 * (s + t - 1)" using I assms by (intro mult_left_mono) auto
    then have "(c1 * s) div (s + t - 1) \<le> (c1 * (s + t - 1)) div (s + t - 1)"
      by (rule zdiv_mono1) (use d2 in simp)
    then show ?thesis unfolding q_def using d2 by simp
  qed
  have u0: "0 \<le> u" unfolding u_def using d1 q1 assms by (simp add: pos_imp_zdiv_nonneg_iff)
  have clamp: "max (min s (n - 1)) 1 = s" using assms by simp
  have n1: "\<not> n < 1" "\<not> s \<le> 0" "s \<noteq> 1" "s \<noteq> n - 1" using assms by auto
  show ?thesis
    using assms(3) I p0 q1 qle u0
    unfolding n_advance_def Let_def clamp
    by (auto simp: n1 L p_def[symmetric] q_def[symmetric] u_def[symmetric])
qed

text \<open>Claim C1, as the code has it. For \<open>n \<ge> 1\<close>, \<open>snapshots \<ge> 1\<close> and a trajectory
  \<open>maximum\<close> or \<open>revolve\<close>, \<open>n_advance\<close> returns \<open>n - 1\<close> when \<open>snapshots = 1\<close>; it returns
  \<open>1\<close> when \<open>snapshots \<ge> n - 1\<close> and \<open>n \<ge> 2\<close>; it returns \<open>r\<close> with \<open>0 < r < n\<close> when
  \<open>snapshots < n - 1\<close>. At \<open>n = 1\<close> the snapshot count is clamped to one and the result
  is \<open>n - 1 = 0\<close>, whatever the count.\<close>

theorem n_advance_result:
  assumes "1 \<le> n" "1 \<le> snapshots" "trajectory = ''maximum'' \<or> trajectory = ''revolve''"
  shows "(snapshots = 1 \<longrightarrow> n_advance n snapshots trajectory = Some (Inr (n - 1)))
       \<and> (2 \<le> n \<and> n - 1 \<le> snapshots \<longrightarrow> n_advance n snapshots trajectory = Some (Inr 1))
       \<and> (n = 1 \<longrightarrow> n_advance n snapshots trajectory = Some (Inr 0))
       \<and> (snapshots < n - 1 \<longrightarrow>
            (\<exists>r. n_advance n snapshots trajectory = Some (Inr r) \<and> 0 < r \<and> r < n))"
proof (intro conjI impI)
  assume "snapshots = 1"
  then show "n_advance n snapshots trajectory = Some (Inr (n - 1))"
    using assms(1) by (simp add: n_advance_def)
next
  assume "2 \<le> n \<and> n - 1 \<le> snapshots"
  then have "max (min snapshots (n - 1)) 1 = n - 1" by simp
  then show "n_advance n snapshots trajectory = Some (Inr 1)"
    using assms(1,2) by (auto simp: n_advance_def Let_def)
next
  assume "n = 1"
  then have "max (min snapshots (n - 1)) 1 = 1" by simp
  then show "n_advance n snapshots trajectory = Some (Inr 0)"
    using assms(1,2) \<open>n = 1\<close> by (simp add: n_advance_def Let_def)
next
  assume lt: "snapshots < n - 1"
  show "\<exists>r. n_advance n snapshots trajectory = Some (Inr r) \<and> 0 < r \<and> r < n"
  proof (cases "snapshots = 1")
    case True
    then show ?thesis using lt by (simp add: n_advance_def)
  next
    case False
    then have "2 \<le> snapshots" using assms(2) by simp
    then show ?thesis using lt assms(3) by (rule n_advance_general)
  qed
qed

theorem n_advance_result_witness:
  "n_advance 2 1 ''maximum'' = Some (Inr 1)
   \<and> n_advance 1 1 ''maximum'' = Some (Inr 0)
   \<and> (\<exists>r. n_advance 100 5 ''revolve'' = Some (Inr r) \<and> 0 < r \<and> r < 100)"
  using n_advance_result[of 2 1 "''maximum''"] n_advance_result[of 1 1 "''maximum''"]
    n_advance_result[of 100 5 "''revolve''"]
  by simp

text \<open>With one block left and two snapshots offered, \<open>snapshots \<ge> n - 1\<close> holds and the
  result is \<open>0\<close>, not \<open>1\<close>.\<close>

theorem n_advance_one_block_counterexample:
  "(1::int) \<le> 1 \<and> (1::int) \<le> 2 \<and> (2::int) \<ge> 1 - 1
   \<and> n_advance 1 2 ''maximum'' = Some (Inr 0) \<and> n_advance 1 2 ''maximum'' \<noteq> Some (Inr 1)"
  by (simp add: n_advance_def)


section \<open>Step relation of the multistage schedule\<close>

text \<open>What one action of the multistage schedule, before \<open>EndReverse\<close>, does to the
  state: \<open>p\<close> is the action yielded before it (if any), \<open>s\<close> the state at that earlier
  \<open>yield\<close> (or at the start) and \<open>s'\<close> the state at this one.\<close>

definition ms_step :: "action option \<Rightarrow> multistage \<Rightarrow> action \<Rightarrow> multistage \<Rightarrow> bool" where
  "ms_step p s a s' =
     (ms_r s' = (case a of Reverse n1 n0 \<Rightarrow> ms_r s + 1 | _ \<Rightarrow> ms_r s)
      \<and> ms_snapshots s' =
          (case a of
             Write n tier \<Rightarrow> ms_snapshots s @ [n]
           | Read n tier delete \<Rightarrow> if delete then butlast (ms_snapshots s) else ms_snapshots s
           | _ \<Rightarrow> ms_snapshots s)
      \<and> (case a of
            Write n tier \<Rightarrow>
              (case p of Some (Forward n0 n1) \<Rightarrow> n0 = n | _ \<Rightarrow> False)
              \<and> int (length (ms_snapshots s'))
                   \<le> ms_snapshots_in_ram s' + ms_snapshots_on_disk s'
          | Read n tier delete \<Rightarrow> ms_snapshots s \<noteq> [] \<and> last (ms_snapshots s) = n
          | EndReverse exhausted \<Rightarrow> False
          | _ \<Rightarrow> True)
      \<and> ms_exhausted s' = ms_exhausted s
      \<and> ms_max_n s' = ms_max_n s
      \<and> ms_snapshots_in_ram s' = ms_snapshots_in_ram s
      \<and> ms_snapshots_on_disk s' = ms_snapshots_on_disk s)"

fun ms_chain :: "action option \<Rightarrow> multistage \<Rightarrow> multistage trace \<Rightarrow> bool" where
  "ms_chain p s [] = True"
| "ms_chain p s ((a, s') # tr) = (ms_step p s a s' \<and> ms_chain (Some a) s' tr)"

definition last_state :: "'st \<Rightarrow> 'st trace \<Rightarrow> 'st" where
  "last_state s tr = (if tr = [] then s else snd (last tr))"

definition last_action :: "action option \<Rightarrow> 'st trace \<Rightarrow> action option" where
  "last_action p tr = (if tr = [] then p else Some (fst (last tr)))"

lemma last_state_simps [simp]:
  "last_state s [] = s"
  "last_state s (x # tr) = last_state (snd x) tr"
  "last_state s (tr @ [x]) = snd x"
  by (auto simp: last_state_def)

lemma last_action_simps [simp]:
  "last_action p [] = p"
  "last_action p (x # tr) = last_action (Some (fst x)) tr"
  "last_action p (tr @ [x]) = Some (fst x)"
  by (auto simp: last_action_def)

lemma last_state_append [simp]:
  "last_state s (xs @ ys) = last_state (last_state s xs) ys"
  by (induction xs arbitrary: s) auto

lemma last_action_append [simp]:
  "last_action p (xs @ ys) = last_action (last_action p xs) ys"
  by (induction xs arbitrary: p) auto

lemma ms_chain_append:
  "ms_chain p s (xs @ ys) =
     (ms_chain p s xs \<and> ms_chain (last_action p xs) (last_state s xs) ys)"
  by (induction xs arbitrary: p s) auto

text \<open>The invariant of the drive: the trace so far is a chain from the start state
  \<open>s0\<close> and the current state is the state at the last \<open>yield\<close>.\<close>

definition ms_inv :: "multistage \<Rightarrow> multistage trace \<Rightarrow> multistage \<Rightarrow> bool" where
  "ms_inv s0 tr st = (ms_chain None s0 tr \<and> last_state s0 tr = st)"

lemma ms_inv_snoc:
  assumes "ms_inv s0 tr st" "ms_step (last_action None tr) st a st'"
  shows "ms_inv s0 (tr @ [(a, st')]) st'"
  using assms by (simp add: ms_inv_def ms_chain_append)

lemma snapshot_cap:
  assumes "snapshot N st n0 = Inr (cp_storage, st')"
  shows "int (length (ms_snapshots st)) < ms_snapshots_in_ram st + ms_snapshots_on_disk st"
  using assms by (auto simp: snapshot_def Let_def split: if_splits sum.splits)

lemma ms_forward_inv:
  "ms_forward N st tr = Some (tr', Inr st') \<Longrightarrow> ms_inv s0 tr st \<Longrightarrow> ms_inv s0 tr' st'"
proof (induction N st tr rule: ms_forward.induct)
  case (1 N st tr)
  show ?case
  proof (cases "ms_n st < N - 1")
    case False
    then show ?thesis using "1.prems" by (simp add: ms_forward.simps[of N st tr])
  next
    case True
    define n0 where "n0 = ms_n st"
    define tr1 where "tr1 = tr @ [(Configure True False, st)]"
    from "1.prems"(1) True obtain adv cp_storage st2 where
      A: "n_advance (N - n0)
            (ms_snapshots_in_ram st + ms_snapshots_on_disk st - int (length (ms_snapshots st)))
            (ms_trajectory st) = Some (Inr adv)"
      and pos: "n0 + adv > n0"
      and S: "snapshot N (st\<lparr>ms_n := n0 + adv\<rparr>) n0 = Inr (cp_storage, st2)"
      and R: "ms_forward N st2
                (tr1 @ [(Forward n0 (n0 + adv), st\<lparr>ms_n := n0 + adv\<rparr>)]
                  @ [(Write n0 cp_storage, st2), (Clear True True, st2)]) = Some (tr', Inr st')"
      unfolding n0_def tr1_def
      by (subst (asm) ms_forward.simps)
         (auto simp: Let_def split: option.splits sum.splits if_splits prod.splits)
    let ?st1 = "st\<lparr>ms_n := n0 + adv\<rparr>"
    have st2: "st2 = ?st1\<lparr>ms_snapshots := ms_snapshots ?st1 @ [n0]\<rparr>"
      using snapshot_fields[OF S] .
    have i1: "ms_inv s0 tr1 st"
      unfolding tr1_def using ms_inv_snoc[OF "1.prems"(2), of "Configure True False" st]
      by (simp add: ms_step_def)
    have i2: "ms_inv s0 (tr1 @ [(Forward n0 (n0 + adv), ?st1)]) ?st1"
      using ms_inv_snoc[OF i1, of "Forward n0 (n0 + adv)" ?st1]
      by (simp add: ms_step_def)
    have i3: "ms_inv s0 (tr1 @ [(Forward n0 (n0 + adv), ?st1)] @ [(Write n0 cp_storage, st2)]) st2"
      using ms_inv_snoc[OF i2, of "Write n0 cp_storage" st2] snapshot_cap[OF S]
      by (auto simp: ms_step_def st2)
    have i4: "ms_inv s0 (tr1 @ [(Forward n0 (n0 + adv), ?st1)]
                @ [(Write n0 cp_storage, st2), (Clear True True, st2)]) st2"
      using ms_inv_snoc[OF i3, of "Clear True True" st2]
      by (simp add: ms_step_def)
    show ?thesis
      using "1.IH"[OF True refl refl refl, of "Inr adv" adv] A pos S R i4
      unfolding n0_def tr1_def
      by (auto simp: Let_def)
  qed
qed

lemma ms_readvance_inv:
  "ms_readvance N st tr = Some (tr', Inr st') \<Longrightarrow> ms_inv s0 tr st \<Longrightarrow> ms_inv s0 tr' st'"
proof (induction N st tr rule: ms_readvance.induct)
  case (1 N st tr)
  show ?case
  proof (cases "ms_n st < N - ms_r st - 1")
    case False
    then show ?thesis using "1.prems" by (simp add: ms_readvance.simps[of N st tr])
  next
    case True
    define n0 where "n0 = ms_n st"
    define tr1 where "tr1 = tr @ [(Configure True False, st)]"
    from "1.prems"(1) True obtain adv cp_storage st2 where
      A: "n_advance (N - ms_r st - n0)
            (ms_snapshots_in_ram st + ms_snapshots_on_disk st - int (length (ms_snapshots st)))
            (ms_trajectory st) = Some (Inr adv)"
      and pos: "n0 + adv > n0"
      and S: "snapshot N (st\<lparr>ms_n := n0 + adv\<rparr>) n0 = Inr (cp_storage, st2)"
      and R: "ms_readvance N st2
                (tr1 @ [(Forward n0 (n0 + adv), st\<lparr>ms_n := n0 + adv\<rparr>)]
                  @ [(Write n0 cp_storage, st2), (Clear True True, st2)]) = Some (tr', Inr st')"
      unfolding n0_def tr1_def
      by (subst (asm) ms_readvance.simps)
         (auto simp: Let_def split: option.splits sum.splits if_splits prod.splits)
    let ?st1 = "st\<lparr>ms_n := n0 + adv\<rparr>"
    have st2: "st2 = ?st1\<lparr>ms_snapshots := ms_snapshots ?st1 @ [n0]\<rparr>"
      using snapshot_fields[OF S] .
    have i1: "ms_inv s0 tr1 st"
      unfolding tr1_def using ms_inv_snoc[OF "1.prems"(2), of "Configure True False" st]
      by (simp add: ms_step_def)
    have i2: "ms_inv s0 (tr1 @ [(Forward n0 (n0 + adv), ?st1)]) ?st1"
      using ms_inv_snoc[OF i1, of "Forward n0 (n0 + adv)" ?st1]
      by (simp add: ms_step_def)
    have i3: "ms_inv s0 (tr1 @ [(Forward n0 (n0 + adv), ?st1)] @ [(Write n0 cp_storage, st2)]) st2"
      using ms_inv_snoc[OF i2, of "Write n0 cp_storage" st2] snapshot_cap[OF S]
      by (auto simp: ms_step_def st2)
    have i4: "ms_inv s0 (tr1 @ [(Forward n0 (n0 + adv), ?st1)]
                @ [(Write n0 cp_storage, st2), (Clear True True, st2)]) st2"
      using ms_inv_snoc[OF i3, of "Clear True True" st2]
      by (simp add: ms_step_def)
    show ?thesis
      using "1.IH"[OF True refl refl refl, of "Inr adv" adv] A pos S R i4
      unfolding n0_def tr1_def
      by (auto simp: Let_def)
  qed
qed

lemma ms_restore_inv:
  assumes "ms_restore N st tr = Some (tr', Inr st')" "ms_inv s0 tr st"
  shows "ms_inv s0 tr' st'"
proof -
  have ne: "ms_snapshots st \<noteq> []"
    using assms(1) by (auto simp: ms_restore_def)
  define cp_n where "cp_n = last (ms_snapshots st)"
  obtain cp_storage where
    G: "getitem (ms_storage st) (int (length (ms_snapshots st)) - 1) = Inr cp_storage"
    using assms(1) ne by (auto simp: ms_restore_def Let_def split: sum.splits)
  show ?thesis
  proof (cases "cp_n = N - ms_r st - 1")
    case True
    define st1 where "st1 = st\<lparr>ms_snapshots := butlast (ms_snapshots st), ms_n := cp_n\<rparr>"
    have res: "tr' = (tr @ [(Read cp_n cp_storage True, st1)]) @ [(Clear True True, st1)]"
      "st' = st1"
      using assms(1) ne G True
      by (auto simp: ms_restore_def Let_def cp_n_def st1_def)
    have i1: "ms_inv s0 (tr @ [(Read cp_n cp_storage True, st1)]) st1"
      using ms_inv_snoc[OF assms(2), of "Read cp_n cp_storage True" st1] ne
      by (simp add: ms_step_def st1_def cp_n_def)
    show ?thesis
      unfolding res using ms_inv_snoc[OF i1, of "Clear True True" st1]
      by (simp add: ms_step_def)
  next
    case False
    define st1 where "st1 = st\<lparr>ms_n := cp_n\<rparr>"
    define tr1 where "tr1 = ((tr @ [(Read cp_n cp_storage False, st1)])
                              @ [(Clear True True, st1)]) @ [(Configure False False, st1)]"
    from assms(1) ne G False obtain adv where
      pos: "cp_n + adv > cp_n"
      and R: "ms_readvance N (st1\<lparr>ms_n := cp_n + adv\<rparr>)
                ((tr1 @ [(Forward cp_n (cp_n + adv), st1\<lparr>ms_n := cp_n + adv\<rparr>)])
                   @ [(Clear True True, st1\<lparr>ms_n := cp_n + adv\<rparr>)]) = Some (tr', Inr st')"
      unfolding tr1_def st1_def cp_n_def
      by (auto simp: ms_restore_def Let_def
               split: option.splits sum.splits if_splits prod.splits)
    let ?st2 = "st1\<lparr>ms_n := cp_n + adv\<rparr>"
    have i1: "ms_inv s0 (tr @ [(Read cp_n cp_storage False, st1)]) st1"
      using ms_inv_snoc[OF assms(2), of "Read cp_n cp_storage False" st1] ne
      by (simp add: ms_step_def st1_def cp_n_def)
    have i2: "ms_inv s0 ((tr @ [(Read cp_n cp_storage False, st1)]) @ [(Clear True True, st1)]) st1"
      using ms_inv_snoc[OF i1, of "Clear True True" st1] by (simp add: ms_step_def)
    have i3: "ms_inv s0 tr1 st1"
      unfolding tr1_def
      using ms_inv_snoc[OF i2, of "Configure False False" st1] by (simp add: ms_step_def)
    have i4: "ms_inv s0 (tr1 @ [(Forward cp_n (cp_n + adv), ?st2)]) ?st2"
      using ms_inv_snoc[OF i3, of "Forward cp_n (cp_n + adv)" ?st2] by (simp add: ms_step_def)
    have i5: "ms_inv s0 ((tr1 @ [(Forward cp_n (cp_n + adv), ?st2)]) @ [(Clear True True, ?st2)]) ?st2"
      using ms_inv_snoc[OF i4, of "Clear True True" ?st2] by (simp add: ms_step_def)
    show ?thesis using ms_readvance_inv[OF R i5] .
  qed
qed

text \<open>A trace that ends with an adjoint step and its \<open>Clear\<close>, both at state \<open>st\<close>.\<close>

definition ends_reverse :: "multistage trace \<Rightarrow> multistage \<Rightarrow> bool" where
  "ends_reverse tr st =
     (\<exists>pre n1 n0 x. tr = pre @ [(Reverse n1 n0, st), (Clear x True, st)])"

lemma ends_reverseI:
  "ends_reverse ((pre @ [(Reverse n1 n0, st)]) @ [(Clear x True, st)]) st"
  unfolding ends_reverse_def by (intro exI[of _ pre] exI[of _ n1] exI[of _ n0] exI[of _ x]) simp

lemma ms_adjoint_inv:
  assumes "ms_adjoint st tr = (tr', st')" "ms_inv s0 tr st"
  shows "ms_inv s0 tr' st' \<and> ends_reverse tr' st'"
proof -
  define st1 where "st1 = st\<lparr>ms_n := ms_n st + 1\<rparr>"
  define st2 where "st2 = st1\<lparr>ms_r := ms_r st1 + 1\<rparr>"
  define c where "c = (\<not> ms_keep_block_0_ics st2 \<or> ms_n st2 \<noteq> 1)"
  define k where "k = (ms_keep_block_0_ics st \<and> ms_n st = 0)"
  have res: "tr' = (((tr @ [(Configure k True, st)]) @ [(Forward (ms_n st1 - 1) (ms_n st1), st1)])
                     @ [(Reverse (ms_n st2) (ms_n st2 - 1), st2)]) @ [(Clear c True, st2)]"
    "st' = st2"
    using assms(1) by (auto simp: ms_adjoint_def Let_def st1_def st2_def c_def k_def)
  have i1: "ms_inv s0 (tr @ [(Configure k True, st)]) st"
    using ms_inv_snoc[OF assms(2), of "Configure k True" st] by (simp add: ms_step_def)
  have i2: "ms_inv s0 ((tr @ [(Configure k True, st)])
              @ [(Forward (ms_n st1 - 1) (ms_n st1), st1)]) st1"
    using ms_inv_snoc[OF i1, of "Forward (ms_n st1 - 1) (ms_n st1)" st1]
    by (simp add: ms_step_def st1_def)
  have i3: "ms_inv s0 (((tr @ [(Configure k True, st)])
              @ [(Forward (ms_n st1 - 1) (ms_n st1), st1)])
              @ [(Reverse (ms_n st2) (ms_n st2 - 1), st2)]) st2"
    using ms_inv_snoc[OF i2, of "Reverse (ms_n st2) (ms_n st2 - 1)" st2]
    by (simp add: ms_step_def st2_def)
  have i4: "ms_inv s0 tr' st2"
    unfolding res using ms_inv_snoc[OF i3, of "Clear c True" st2] by (simp add: ms_step_def)
  have "ends_reverse tr' st2" unfolding res(1) by (rule ends_reverseI)
  then show ?thesis using i4 unfolding res(2) by simp
qed

lemma ms_reverse_inv:
  "ms_reverse N st tr = Some (tr', Inr st') \<Longrightarrow> ms_inv s0 tr st \<Longrightarrow> ends_reverse tr st \<Longrightarrow>
     ms_inv s0 tr' st' \<and> ends_reverse tr' st' \<and> \<not> ms_r st' < N"
proof (induction N st tr rule: ms_reverse.induct)
  case (1 N st tr)
  show ?case
  proof (cases "ms_r st < N")
    case False
    then show ?thesis using "1.prems" by (simp add: ms_reverse.simps[of N st tr])
  next
    case True
    from "1.prems"(1) True obtain tr1 st1 tr2 st2 where
      R: "ms_restore N st tr = Some (tr1, Inr st1)"
      and A: "ms_adjoint st1 tr1 = (tr2, st2)"
      and L: "ms_reverse N st2 tr2 = Some (tr', Inr st')"
      by (subst (asm) ms_reverse.simps)
         (auto split: option.splits sum.splits prod.splits)
    have i1: "ms_inv s0 tr1 st1" using ms_restore_inv[OF R "1.prems"(2)] .
    have i2: "ms_inv s0 tr2 st2 \<and> ends_reverse tr2 st2" using ms_adjoint_inv[OF A i1] .
    show ?thesis
      using "1.IH"[OF True R refl refl A[symmetric] L] i2 by simp
  qed
qed

lemma multistage_iter_Inr:
  assumes "multistage_iter st = Some (tr, Inr st')"
  obtains N tr1 st1 tr2 st2 tr3 st3 where
    "ms_max_n st = Some N" "ms_forward N st [] = Some (tr1, Inr st1)"
    "ms_turn st1 tr1 = (tr2, st2)" "ms_reverse N st2 tr2 = Some (tr3, Inr st3)"
    "ms_end N st3 tr3 = Some (tr, Inr st')"
  using assms unfolding multistage_iter_def
  by (auto split: option.splits sum.splits prod.splits if_splits)

lemma ms_turn_inv:
  assumes "ms_turn st tr = (tr', st')" "ms_inv s0 tr st"
  shows "ms_inv s0 tr' st' \<and> ends_reverse tr' st'"
proof -
  define k where "k = (ms_keep_block_0_ics st \<and> ms_n st = 0)"
  define st1 where "st1 = st\<lparr>ms_n := ms_n st + 1\<rparr>"
  define st2 where "st2 = st1\<lparr>ms_r := ms_r st1 + 1\<rparr>"
  define c where "c = (\<not> ms_keep_block_0_ics st2 \<or> ms_n st2 \<noteq> 1)"
  have res: "tr' = ((((tr @ [(Configure k True, st)])
      @ [(Forward (ms_n st1 - 1) (ms_n st1), st1)]) @ [(EndForward, st1)])
      @ [(Reverse (ms_n st2) (ms_n st2 - 1), st2)]) @ [(Clear c True, st2)]"
    "st' = st2"
    using assms(1) by (auto simp: ms_turn_def Let_def st1_def st2_def c_def k_def)
  have i2: "ms_inv s0 (tr @ [(Configure k True, st)]) st"
    using ms_inv_snoc[OF assms(2), of "Configure k True" st] by (simp add: ms_step_def)
  have i3: "ms_inv s0 ((tr @ [(Configure k True, st)])
              @ [(Forward (ms_n st1 - 1) (ms_n st1), st1)]) st1"
    using ms_inv_snoc[OF i2, of "Forward (ms_n st1 - 1) (ms_n st1)" st1]
    by (simp add: ms_step_def st1_def)
  have i4: "ms_inv s0 (((tr @ [(Configure k True, st)])
              @ [(Forward (ms_n st1 - 1) (ms_n st1), st1)]) @ [(EndForward, st1)]) st1"
    using ms_inv_snoc[OF i3, of EndForward st1] by (simp add: ms_step_def)
  have i5: "ms_inv s0 ((((tr @ [(Configure k True, st)])
              @ [(Forward (ms_n st1 - 1) (ms_n st1), st1)]) @ [(EndForward, st1)])
              @ [(Reverse (ms_n st2) (ms_n st2 - 1), st2)]) st2"
    using ms_inv_snoc[OF i4, of "Reverse (ms_n st2) (ms_n st2 - 1)" st2]
    by (simp add: ms_step_def st2_def)
  have i6: "ms_inv s0 tr' st2"
    unfolding res using ms_inv_snoc[OF i5, of "Clear c True" st2] by (simp add: ms_step_def)
  have "ends_reverse tr' st2" unfolding res(1) by (rule ends_reverseI)
  then show ?thesis using i6 unfolding res(2) by simp
qed

lemma multistage_iter_shape:
  assumes "multistage_iter st = Some (tr, Inr st')"
  shows "\<exists>N body s5. ms_max_n st = Some N \<and> tr = body @ [(EndReverse True, st')]
           \<and> ms_inv st body s5 \<and> ends_reverse body s5 \<and> ms_r s5 = N
           \<and> ms_snapshots s5 = [] \<and> st' = s5\<lparr>ms_exhausted := True\<rparr>"
proof -
  from assms obtain N tr1 st1 tr2 st2 tr3 st3 where
    N: "ms_max_n st = Some N" and F: "ms_forward N st [] = Some (tr1, Inr st1)"
    and T: "ms_turn st1 tr1 = (tr2, st2)" and R: "ms_reverse N st2 tr2 = Some (tr3, Inr st3)"
    and E: "ms_end N st3 tr3 = Some (tr, Inr st')"
    by (rule multistage_iter_Inr)
  have i0: "ms_inv st [] st" by (simp add: ms_inv_def)
  have i1: "ms_inv st tr1 st1" using ms_forward_inv[OF F i0] .
  have i2: "ms_inv st tr2 st2 \<and> ends_reverse tr2 st2" using ms_turn_inv[OF T i1] .
  have i3: "ms_inv st tr3 st3 \<and> ends_reverse tr3 st3"
    using ms_reverse_inv[OF R conjunct1[OF i2] conjunct2[OF i2]] by simp
  have "ms_r st3 = N \<and> ms_snapshots st3 = [] \<and> tr = tr3 @ [(EndReverse True, st')]
        \<and> st' = st3\<lparr>ms_exhausted := True\<rparr>"
    using E by (auto simp: ms_end_def Let_def split: if_splits)
  then show ?thesis using N i3 by auto
qed

text \<open>What the constructor leaves in the fields the schedule works on.\<close>

lemma multistage_init_fields:
  assumes "multistage_init max_n snapshots_in_ram snapshots_on_disk keep trajectory = Some (Inr st)"
  shows "ms_n st = 0" "ms_r st = 0" "ms_max_n st = max_n" "ms_snapshots st = []"
    "ms_snapshots_in_ram st = snapshots_in_ram" "ms_snapshots_on_disk st = snapshots_on_disk"
    "ms_exhausted st = False" "ms_keep_block_0_ics st = keep" "ms_trajectory st = trajectory"
  using assms
  by (auto simp: multistage_init.simps[of max_n snapshots_in_ram snapshots_on_disk keep trajectory]
        base_init_def split: option.splits sum.splits if_splits prod.splits)

text \<open>The number of snapshots held after a list of actions: each \<open>Write\<close> adds one,
  each \<open>Read\<close> with \<open>delete\<close> frees one.\<close>

fun stack_size :: "action list \<Rightarrow> int" where
  "stack_size [] = 0"
| "stack_size (Write n tier # as) = 1 + stack_size as"
| "stack_size (Read n tier delete # as) = (if delete then - 1 else 0) + stack_size as"
| "stack_size (a # as) = stack_size as"

fun count_writes :: "action list \<Rightarrow> nat" where
  "count_writes [] = 0"
| "count_writes (Write n tier # as) = Suc (count_writes as)"
| "count_writes (a # as) = count_writes as"

lemma int_length_butlast:
  "xs \<noteq> [] \<Longrightarrow> int (length xs - Suc 0) = int (length xs) - 1"
  by (cases xs) auto

lemma ms_chain_stack:
  "ms_chain p s tr \<Longrightarrow>
     int (length (ms_snapshots (last_state s tr)))
       = int (length (ms_snapshots s)) + stack_size (actions tr)"
proof (induction tr arbitrary: p s)
  case Nil
  then show ?case by (simp add: actions_def)
next
  case (Cons x tr)
  obtain a s' where x: "x = (a, s')" by (cases x)
  have st: "ms_step p s a s'" and ch: "ms_chain (Some a) s' tr"
    using Cons.prems by (simp_all add: x)
  have "int (length (ms_snapshots s')) = int (length (ms_snapshots s)) + stack_size [a]"
    using st by (cases a) (auto simp: ms_step_def int_length_butlast)
  moreover have "stack_size (a # actions tr) = stack_size [a] + stack_size (actions tr)"
    by (cases a) auto
  ultimately show ?case using Cons.IH[OF ch] by (simp add: x actions_def)
qed

lemma ms_chain_capacity:
  "ms_chain p s tr \<Longrightarrow>
     int (length (ms_snapshots s)) \<le> ms_snapshots_in_ram s + ms_snapshots_on_disk s \<Longrightarrow>
     int (length (ms_snapshots (last_state s tr)))
       \<le> ms_snapshots_in_ram s + ms_snapshots_on_disk s
     \<and> ms_snapshots_in_ram (last_state s tr) = ms_snapshots_in_ram s
     \<and> ms_snapshots_on_disk (last_state s tr) = ms_snapshots_on_disk s"
proof (induction tr arbitrary: p s)
  case Nil
  then show ?case by simp
next
  case (Cons x tr)
  obtain a s' where x: "x = (a, s')" by (cases x)
  have st: "ms_step p s a s'" and ch: "ms_chain (Some a) s' tr"
    using Cons.prems by (simp_all add: x)
  have c: "ms_snapshots_in_ram s' = ms_snapshots_in_ram s"
    "ms_snapshots_on_disk s' = ms_snapshots_on_disk s"
    using st by (simp_all add: ms_step_def)
  have "int (length (ms_snapshots s')) \<le> ms_snapshots_in_ram s' + ms_snapshots_on_disk s'"
    using st Cons.prems(2) c by (cases a) (auto simp: ms_step_def int_length_butlast)
  from Cons.IH[OF ch this] show ?case by (simp add: x c)
qed

lemma ms_chain_take: "ms_chain p s tr \<Longrightarrow> ms_chain p s (take k tr)"
proof (induction tr arbitrary: p s k)
  case Nil
  then show ?case by simp
next
  case (Cons x tr)
  then show ?case by (cases k; cases x) auto
qed

lemma stack_size_snoc_end [simp]:
  "stack_size (as @ [EndReverse b]) = stack_size as"
  by (induction as rule: stack_size.induct) auto

text \<open>The reverse counter along a trace: \<open>r\<close> is its value before the first action.\<close>

fun r_counts :: "int \<Rightarrow> multistage trace \<Rightarrow> bool" where
  "r_counts r [] = True"
| "r_counts r ((a, s) # tr) =
     (ms_r s = (case a of Reverse n1 n0 \<Rightarrow> r + 1 | _ \<Rightarrow> r) \<and> r_counts (ms_r s) tr)"

fun count_reverse :: "action list \<Rightarrow> nat" where
  "count_reverse [] = 0"
| "count_reverse (Reverse n1 n0 # as) = Suc (count_reverse as)"
| "count_reverse (a # as) = count_reverse as"

lemma ms_chain_r_counts: "ms_chain p s tr \<Longrightarrow> r_counts (ms_r s) tr"
proof (induction tr arbitrary: p s)
  case Nil
  then show ?case by simp
next
  case (Cons x tr)
  obtain a s' where x: "x = (a, s')" by (cases x)
  have st: "ms_step p s a s'" and ch: "ms_chain (Some a) s' tr"
    using Cons.prems by (simp_all add: x)
  show ?case using st Cons.IH[OF ch] by (simp add: x ms_step_def)
qed

lemma ms_chain_count_reverse:
  "ms_chain p s tr \<Longrightarrow> ms_r (last_state s tr) = ms_r s + int (count_reverse (actions tr))"
proof (induction tr arbitrary: p s)
  case Nil
  then show ?case by (simp add: actions_def)
next
  case (Cons x tr)
  obtain a s' where x: "x = (a, s')" by (cases x)
  have st: "ms_step p s a s'" and ch: "ms_chain (Some a) s' tr"
    using Cons.prems by (simp_all add: x)
  have "ms_r s' = ms_r s + int (count_reverse [a])"
    using st by (cases a) (auto simp: ms_step_def)
  moreover have "count_reverse (a # actions tr) = count_reverse [a] + count_reverse (actions tr)"
    by (cases a) auto
  ultimately show ?case using Cons.IH[OF ch] by (simp add: x actions_def)
qed

lemma ms_chain_members:
  "ms_chain p s tr \<Longrightarrow> e \<in> set tr \<Longrightarrow>
     ms_r s \<le> ms_r (snd e) \<and> ms_r (snd e) \<le> ms_r (last_state s tr)
     \<and> ms_exhausted (snd e) = ms_exhausted s \<and> fst e \<noteq> EndReverse b"
proof (induction tr arbitrary: p s)
  case Nil
  then show ?case by simp
next
  case (Cons x tr)
  obtain a s' where x: "x = (a, s')" by (cases x)
  have st: "ms_step p s a s'" and ch: "ms_chain (Some a) s' tr"
    using Cons.prems by (simp_all add: x)
  have mono: "ms_r s \<le> ms_r s'" "ms_exhausted s' = ms_exhausted s" "a \<noteq> EndReverse b"
    using st by (cases a; auto simp: ms_step_def)+
  have last: "ms_r s' \<le> ms_r (last_state s' tr)"
    using ms_chain_count_reverse[OF ch] by simp
  show ?case
  proof (cases "e = x")
    case True
    then show ?thesis using mono last by (simp add: x)
  next
    case False
    then have "e \<in> set tr" using Cons.prems(2) by simp
    from Cons.IH[OF ch this] show ?thesis using mono by (simp add: x)
  qed
qed

text \<open>Reading a concrete construction and a concrete drive off an evaluated case.\<close>

lemma constructedE:
  assumes "case x of Some (Inr y) \<Rightarrow> Q y | _ \<Rightarrow> False"
  obtains y where "x = Some (Inr y)" "Q y"
  using assms by (cases x) (auto split: sum.splits)

lemma drivenE:
  assumes "case m of Some (tr, Inr s) \<Rightarrow> Q tr s | _ \<Rightarrow> False"
  obtains tr s where "m = Some (tr, Inr s)" "Q tr s"
  using assms by (cases m) (auto split: sum.splits prod.splits)

text \<open>Claim C2, as the code has it. For a multistage schedule constructed with
  non-negative snapshot counts and driven to \<open>EndReverse\<close>: at every point of the drive
  the number of snapshots held (the \<open>Write\<close> actions so far minus the \<open>Read\<close> actions
  with \<open>delete\<close> so far) is between \<open>0\<close> and \<open>snapshots_in_ram + snapshots_on_disk\<close>; the
  drive ends with \<open>EndReverse(True)\<close>, and then no snapshot is held and the stack is
  empty. The total number of \<open>Write\<close> actions is not bounded by the capacity, because a
  freed slot is written again.\<close>

theorem multistage_stack_bounded:
  assumes "multistage_init max_n snapshots_in_ram snapshots_on_disk keep trajectory
             = Some (Inr st0)"
    and "multistage_iter st0 = Some (tr, Inr st')"
    and "0 \<le> snapshots_in_ram" "0 \<le> snapshots_on_disk"
  shows "(\<forall>k \<le> length tr.
            0 \<le> stack_size (take k (actions tr))
            \<and> stack_size (take k (actions tr)) \<le> snapshots_in_ram + snapshots_on_disk)
       \<and> last (actions tr) = EndReverse True
       \<and> stack_size (actions tr) = 0
       \<and> ms_snapshots st' = []"
proof -
  from multistage_iter_shape[OF assms(2)] obtain N body s5 where
    tr: "tr = body @ [(EndReverse True, st')]"
    and inv: "ms_inv st0 body s5"
    and fin: "ms_snapshots s5 = []" "st' = s5\<lparr>ms_exhausted := True\<rparr>"
    by blast
  have ch: "ms_chain None st0 body" and ls: "last_state st0 body = s5"
    using inv by (simp_all add: ms_inv_def)
  have f0: "ms_snapshots st0 = []" "ms_snapshots_in_ram st0 = snapshots_in_ram"
    "ms_snapshots_on_disk st0 = snapshots_on_disk"
    using multistage_init_fields[OF assms(1)] by simp_all
  have body_bound: "0 \<le> stack_size (take k (actions body))
      \<and> stack_size (take k (actions body)) \<le> snapshots_in_ram + snapshots_on_disk" for k
  proof -
    have c: "ms_chain None st0 (take k body)" using ch by (rule ms_chain_take)
    have a: "take k (actions body) = actions (take k body)"
      by (simp add: actions_def take_map)
    have "int (length (ms_snapshots (last_state st0 (take k body))))
            = stack_size (actions (take k body))"
      using ms_chain_stack[OF c] f0 by simp
    moreover have "int (length (ms_snapshots (last_state st0 (take k body))))
            \<le> snapshots_in_ram + snapshots_on_disk"
      using ms_chain_capacity[OF c] f0 assms(3,4) by simp
    ultimately show ?thesis unfolding a by linarith
  qed
  have whole: "stack_size (actions body) = 0"
    using ms_chain_stack[OF ch] f0 fin ls by simp
  have acts: "actions tr = actions body @ [EndReverse True]"
    by (simp add: tr actions_def)
  have "0 \<le> stack_size (take k (actions tr))
      \<and> stack_size (take k (actions tr)) \<le> snapshots_in_ram + snapshots_on_disk" for k
  proof (cases "k \<le> length (actions body)")
    case True
    then show ?thesis using body_bound[of k] by (simp add: acts)
  next
    case False
    then have "take k (actions tr) = actions body @ [EndReverse True]"
      by (simp add: acts)
    then show ?thesis using whole assms(3,4) by simp
  qed
  moreover have "stack_size (actions tr) = 0" using whole by (simp add: acts)
  moreover have "last (actions tr) = EndReverse True" by (simp add: acts)
  moreover have "ms_snapshots st' = []" using fin by simp
  ultimately show ?thesis by blast
qed

theorem multistage_stack_bounded_witness:
  "\<exists>st0 tr st'.
     multistage_init (Some 10) 2 1 False ''maximum'' = Some (Inr st0)
     \<and> multistage_iter st0 = Some (tr, Inr st')
     \<and> stack_size (take 7 (actions tr)) \<le> 2 + 1
     \<and> last (actions tr) = EndReverse True
     \<and> stack_size (actions tr) = 0
     \<and> ms_snapshots st' = []"
proof -
  have "case multistage_init (Some 10) 2 1 False ''maximum'' of
          Some (Inr st0) \<Rightarrow>
            (case multistage_iter st0 of
               Some (tr, Inr st') \<Rightarrow> 7 \<le> length tr
             | _ \<Rightarrow> False)
        | _ \<Rightarrow> False"
    by code_simp
  then obtain st0 tr st' where
    i: "multistage_init (Some 10) 2 1 False ''maximum'' = Some (Inr st0)"
    and r: "multistage_iter st0 = Some (tr, Inr st')" and l: "7 \<le> length tr"
    by (elim constructedE drivenE)
  from multistage_stack_bounded[OF i r] l show ?thesis
    using i r by auto
qed

text \<open>Ten steps with two snapshots: the drive yields four \<open>Write\<close> actions.\<close>

theorem multistage_writes_counterexample:
  "case multistage_init (Some 10) 2 0 False ''maximum'' of
     Some (Inr st0) \<Rightarrow>
       (case multistage_iter st0 of
          Some (tr, Inr st') \<Rightarrow>
            last (actions tr) = EndReverse True
            \<and> count_writes (actions tr) = 4
            \<and> \<not> int (count_writes (actions tr)) \<le> 2 + 0
        | _ \<Rightarrow> False)
   | _ \<Rightarrow> False"
  by code_simp

definition last_r :: "int \<Rightarrow> multistage trace \<Rightarrow> int" where
  "last_r r tr = (if tr = [] then r else ms_r (snd (last tr)))"

lemma r_counts_append:
  "r_counts r (xs @ ys) = (r_counts r xs \<and> r_counts (last_r r xs) ys)"
  by (induction xs arbitrary: r) (auto simp: last_r_def)

lemma last_r_state: "last_r (ms_r s) tr = ms_r (last_state s tr)"
  by (simp add: last_r_def last_state_def)

text \<open>Claim C3, as the code has it. For a multistage schedule driven to completion:
  \<open>r\<close> starts at \<open>0\<close>, increases by exactly one at each \<open>Reverse\<close> action and is
  unchanged at every other action; there are \<open>max_n\<close> \<open>Reverse\<close> actions. \<open>r\<close> reaches
  \<open>max_n\<close> at exactly one of them, the last, and not at \<open>EndReverse\<close>: the increment
  comes before that \<open>Reverse\<close> is yielded, and the actions that follow are its \<open>Clear\<close>
  and the single \<open>EndReverse\<close>, so \<open>r = max_n\<close> holds at these three actions and at no
  earlier one. The \<open>EndReverse\<close> carries \<open>True\<close>, and \<open>is_exhausted\<close> holds after it and
  at no earlier action.\<close>

theorem multistage_reverse_counter:
  assumes "multistage_init max_n snapshots_in_ram snapshots_on_disk keep trajectory
             = Some (Inr st0)"
    and "multistage_iter st0 = Some (tr, Inr st')"
  shows "r_counts 0 tr
       \<and> (\<exists>N pre n1 n0 x s.
             max_n = Some N
             \<and> tr = pre @ [(Reverse n1 n0, s), (Clear x True, s), (EndReverse True, st')]
             \<and> (\<forall>e \<in> set pre. ms_r (snd e) < N \<and> \<not> is_exhausted (snd e)
                               \<and> (\<forall>b. fst e \<noteq> EndReverse b))
             \<and> ms_r s = N \<and> \<not> is_exhausted s
             \<and> ms_r st' = N \<and> is_exhausted st'
             \<and> int (count_reverse (actions tr)) = N)"
proof -
  from multistage_iter_shape[OF assms(2)] obtain N body s5 where
    N: "ms_max_n st0 = Some N"
    and tr: "tr = body @ [(EndReverse True, st')]"
    and inv: "ms_inv st0 body s5" and er: "ends_reverse body s5"
    and fin: "ms_r s5 = N" "st' = s5\<lparr>ms_exhausted := True\<rparr>"
    by blast
  have f0: "ms_r st0 = 0" "ms_max_n st0 = max_n" "ms_exhausted st0 = False"
    using multistage_init_fields[OF assms(1)] by simp_all
  have ch: "ms_chain None st0 body" and ls: "last_state st0 body = s5"
    using inv by (simp_all add: ms_inv_def)
  from er obtain pre n1 n0 x where
    body: "body = pre @ [(Reverse n1 n0, s5), (Clear x True, s5)]"
    unfolding ends_reverse_def by blast
  have chp: "ms_chain None st0 pre"
    and stp: "ms_step (last_action None pre) (last_state st0 pre) (Reverse n1 n0) s5"
    using ch unfolding body by (simp_all add: ms_chain_append)
  have rp: "ms_r (last_state st0 pre) = N - 1"
    using stp fin(1) by (simp add: ms_step_def)
  have pre_ok: "ms_r (snd e) < N \<and> \<not> is_exhausted (snd e) \<and> (\<forall>b. fst e \<noteq> EndReverse b)"
    if "e \<in> set pre" for e
    using ms_chain_members[OF chp that] rp f0 by (auto simp: is_exhausted_def)
  have ex5: "\<not> is_exhausted s5"
    using ms_chain_members[OF ch, of "(Clear x True, s5)"] f0
    by (simp add: body is_exhausted_def)
  have r1: "r_counts 0 body" using ms_chain_r_counts[OF ch] f0 by simp
  have "last_r 0 body = ms_r s5" using last_r_state[of st0 body] f0 ls by simp
  then have r2: "r_counts 0 tr"
    unfolding tr using r1 fin(2) by (simp add: r_counts_append)
  have cnt: "int (count_reverse (actions tr)) = N"
  proof -
    have "actions tr = actions body @ [EndReverse True]" by (simp add: tr actions_def)
    moreover have "count_reverse (as @ [EndReverse True]) = count_reverse as" for as
      by (induction as rule: count_reverse.induct) auto
    ultimately show ?thesis using ms_chain_count_reverse[OF ch] ls fin(1) f0 by simp
  qed
  have "tr = pre @ [(Reverse n1 n0, s5), (Clear x True, s5), (EndReverse True, st')]"
    by (simp add: tr body)
  moreover have "max_n = Some N" using N f0 by simp
  moreover have "ms_r st' = N \<and> is_exhausted st'" using fin by (simp add: is_exhausted_def)
  ultimately show ?thesis using r2 pre_ok ex5 fin(1) cnt by blast
qed

theorem multistage_reverse_counter_witness:
  "\<exists>st0 tr st'.
     multistage_init (Some 10) 2 1 False ''revolve'' = Some (Inr st0)
     \<and> multistage_iter st0 = Some (tr, Inr st')
     \<and> r_counts 0 tr
     \<and> ms_r st' = 10 \<and> is_exhausted st'
     \<and> count_reverse (actions tr) = 10"
proof -
  have "case multistage_init (Some 10) 2 1 False ''revolve'' of
          Some (Inr st0) \<Rightarrow>
            (case multistage_iter st0 of
               Some (tr, Inr st') \<Rightarrow> True
             | _ \<Rightarrow> False)
        | _ \<Rightarrow> False"
    by code_simp
  then obtain st0 tr st' where
    i: "multistage_init (Some 10) 2 1 False ''revolve'' = Some (Inr st0)"
    and r: "multistage_iter st0 = Some (tr, Inr st')"
    by (elim constructedE drivenE)
  from multistage_reverse_counter[OF i r] show ?thesis
    using i r by auto
qed

text \<open>Ten steps, two snapshots in RAM and one on disk: \<open>r = max_n = 10\<close> holds at three
  actions, of which \<open>EndReverse\<close> is the last.\<close>

theorem multistage_reverse_counter_counterexample:
  "case multistage_init (Some 10) 2 1 False ''revolve'' of
     Some (Inr st0) \<Rightarrow>
       (case multistage_iter st0 of
          Some (tr, Inr st') \<Rightarrow>
            actions (filter (\<lambda>e. ms_r (snd e) = 10) tr)
              = [Reverse 1 0, Clear True True, EndReverse True]
        | _ \<Rightarrow> False)
   | _ \<Rightarrow> False"
  by code_simp



section \<open>Step relation of the two-level reverse sweep\<close>

text \<open>What one action of a reverse sweep of the two-level schedule, before its
  \<open>EndReverse\<close>, does to the state; \<open>N\<close> is \<open>max_n\<close>, \<open>p\<close> the action yielded before.\<close>

definition tl_step :: "int \<Rightarrow> action option \<Rightarrow> twolevel \<Rightarrow> action \<Rightarrow> twolevel \<Rightarrow> bool" where
  "tl_step N p s a s' =
     (tl_r s' = (case a of Reverse n1 n0 \<Rightarrow> tl_r s + 1 | _ \<Rightarrow> tl_r s)
      \<and> (case a of
            Write n tier \<Rightarrow> (case p of Some (Forward n0 n1) \<Rightarrow> n0 = n | _ \<Rightarrow> False)
          | Read n tier delete \<Rightarrow>
              0 \<le> n \<and> n < N
              \<and> (if n mod tl_period s = 0 then tier = ''disk'' \<and> \<not> delete
                  else tier = tl_binomial_storage s)
          | EndForward \<Rightarrow> False
          | EndReverse exhausted \<Rightarrow> False
          | _ \<Rightarrow> True)
      \<and> tl_max_n s' = tl_max_n s
      \<and> tl_period s' = tl_period s
      \<and> tl_binomial_snapshots s' = tl_binomial_snapshots s
      \<and> tl_binomial_storage s' = tl_binomial_storage s
      \<and> tl_keep_block_0_ics s' = tl_keep_block_0_ics s
      \<and> tl_trajectory s' = tl_trajectory s)"

fun tl_chain :: "int \<Rightarrow> action option \<Rightarrow> twolevel \<Rightarrow> twolevel trace \<Rightarrow> bool" where
  "tl_chain N p s [] = True"
| "tl_chain N p s ((a, s') # tr) = (tl_step N p s a s' \<and> tl_chain N (Some a) s' tr)"

lemma tl_chain_append:
  "tl_chain N p s (xs @ ys) =
     (tl_chain N p s xs \<and> tl_chain N (last_action p xs) (last_state s xs) ys)"
  by (induction xs arbitrary: p s) auto

text \<open>\<open>tr'\<close> extends \<open>tr\<close> by a chain of steps that leads from \<open>st\<close> to \<open>st'\<close>, whatever
  action came before.\<close>

definition tl_ext :: "int \<Rightarrow> twolevel \<Rightarrow> twolevel trace \<Rightarrow> twolevel trace \<Rightarrow> twolevel \<Rightarrow> bool" where
  "tl_ext N st tr tr' st' =
     (\<exists>ext. tr' = tr @ ext \<and> (\<forall>p. tl_chain N p st ext) \<and> last_state st ext = st')"

lemma tl_ext_refl: "tl_ext N st tr tr st"
  unfolding tl_ext_def by (intro exI[of _ "[]"]) simp

lemma tl_ext_trans:
  assumes "tl_ext N st tr tr1 st1" "tl_ext N st1 tr1 tr2 st2"
  shows "tl_ext N st tr tr2 st2"
proof -
  from assms(1) obtain e1 where
    e1: "tr1 = tr @ e1" "\<forall>p. tl_chain N p st e1" "last_state st e1 = st1"
    unfolding tl_ext_def by blast
  from assms(2) obtain e2 where
    e2: "tr2 = tr1 @ e2" "\<forall>p. tl_chain N p st1 e2" "last_state st1 e2 = st2"
    unfolding tl_ext_def by blast
  show ?thesis
    unfolding tl_ext_def
    using e1 e2 by (intro exI[of _ "e1 @ e2"]) (simp add: tl_chain_append)
qed

lemma tl_ext_app:
  assumes "\<forall>p. tl_chain N p st es"
  shows "tl_ext N st tr (tr @ es) (last_state st es)"
  unfolding tl_ext_def using assms by (intro exI[of _ es]) simp

lemma tl_chain_const:
  "tl_chain N p s ext \<Longrightarrow>
     tl_r s \<le> tl_r (last_state s ext)
     \<and> tl_max_n (last_state s ext) = tl_max_n s
     \<and> tl_period (last_state s ext) = tl_period s
     \<and> tl_binomial_snapshots (last_state s ext) = tl_binomial_snapshots s
     \<and> tl_binomial_storage (last_state s ext) = tl_binomial_storage s
     \<and> tl_keep_block_0_ics (last_state s ext) = tl_keep_block_0_ics s
     \<and> tl_trajectory (last_state s ext) = tl_trajectory s"
proof (induction ext arbitrary: p s)
  case Nil
  then show ?case by simp
next
  case (Cons x ext)
  obtain a s' where x: "x = (a, s')" by (cases x)
  have st: "tl_step N p s a s'" and ch: "tl_chain N (Some a) s' ext"
    using Cons.prems by (simp_all add: x)
  have "tl_r s \<le> tl_r s'" using st by (cases a) (auto simp: tl_step_def)
  then show ?case using Cons.IH[OF ch] st by (simp add: x tl_step_def)
qed

lemma tl_ext_const:
  assumes "tl_ext N st tr tr' st'"
  shows "tl_r st \<le> tl_r st'" "tl_max_n st' = tl_max_n st" "tl_period st' = tl_period st"
    "tl_binomial_snapshots st' = tl_binomial_snapshots st"
    "tl_binomial_storage st' = tl_binomial_storage st"
    "tl_keep_block_0_ics st' = tl_keep_block_0_ics st"
    "tl_trajectory st' = tl_trajectory st"
proof -
  from assms obtain ext where "tl_chain N None st ext" "last_state st ext = st'"
    unfolding tl_ext_def by blast
  from tl_chain_const[OF this(1)] this(2)
  show "tl_r st \<le> tl_r st'" "tl_max_n st' = tl_max_n st" "tl_period st' = tl_period st"
    "tl_binomial_snapshots st' = tl_binomial_snapshots st"
    "tl_binomial_storage st' = tl_binomial_storage st"
    "tl_keep_block_0_ics st' = tl_keep_block_0_ics st"
    "tl_trajectory st' = tl_trajectory st"
    by simp_all
qed

text \<open>The local stack of a period that starts at \<open>n0s\<close>: the period snapshot at the
  bottom, inner snapshots strictly inside the period above it.\<close>

definition snaps_ok :: "int \<Rightarrow> int \<Rightarrow> int \<Rightarrow> int list \<Rightarrow> bool" where
  "snaps_ok N n0s p snaps =
     (case snaps of
        [] \<Rightarrow> True
      | x # inner \<Rightarrow> x = n0s \<and> (\<forall>y \<in> set inner. n0s < y \<and> y < n0s + p \<and> y < N))"

lemma snaps_ok_snoc:
  assumes "snaps_ok N n0s p snaps" "snaps \<noteq> []" "n0s < y" "y < n0s + p" "y < N"
  shows "snaps_ok N n0s p (snaps @ [y])"
  using assms by (cases snaps) (auto simp: snaps_ok_def)

lemma snaps_ok_butlast:
  assumes "snaps_ok N n0s p snaps"
  shows "snaps_ok N n0s p (butlast snaps)"
proof (cases snaps)
  case Nil
  then show ?thesis by (simp add: snaps_ok_def)
next
  case (Cons x inner)
  then show ?thesis using assms
    by (cases inner rule: rev_cases) (auto simp: snaps_ok_def butlast_append)
qed

lemma snaps_ok_last:
  assumes "snaps_ok N n0s p snaps" "snaps \<noteq> []" "last snaps \<noteq> n0s"
  shows "n0s < last snaps \<and> last snaps < n0s + p \<and> last snaps < N"
proof (cases snaps)
  case Nil
  then show ?thesis using assms by simp
next
  case (Cons x inner)
  then have "inner \<noteq> []" using assms by (auto simp: snaps_ok_def)
  then have "last snaps \<in> set inner" using Cons by simp
  then show ?thesis using assms(1) Cons by (auto simp: snaps_ok_def)
qed

lemma inside_period_mod:
  fixes x p n0s :: int
  assumes "n0s mod p = 0" "n0s < x" "x < n0s + p"
  shows "x mod p \<noteq> 0"
proof
  assume "x mod p = 0"
  then have "(x - n0s) mod p = 0" using assms(1) by (simp add: mod_diff_eq[symmetric])
  moreover have "0 < x - n0s" "x - n0s < p" using assms by simp_all
  ultimately show False by simp
qed

lemma tl_readvance_ext:
  "tl_readvance N st snaps tr = Some (tr', Inr (st', snaps')) \<Longrightarrow>
   snaps_ok N n0s (tl_period st) snaps \<Longrightarrow> snaps \<noteq> [] \<Longrightarrow> n0s < tl_n st \<Longrightarrow>
   0 \<le> tl_r st \<Longrightarrow> N - tl_r st \<le> n0s + tl_period st \<Longrightarrow>
     tl_ext N st tr tr' st' \<and> snaps_ok N n0s (tl_period st) snaps' \<and> tl_r st' = tl_r st"
proof (induction N st snaps tr rule: tl_readvance.induct)
  case (1 N st snaps tr)
  show ?case
  proof (cases "tl_n st < N - tl_r st - 1")
    case False
    then show ?thesis using "1.prems"
      by (simp add: tl_readvance.simps[of N st snaps tr] tl_ext_refl)
  next
    case True
    define n0 where "n0 = tl_n st"
    from "1.prems"(1) True obtain adv where
      A: "n_advance (N - tl_r st - n0)
            (tl_binomial_snapshots st + 1 - int (length snaps)) (tl_trajectory st)
            = Some (Inr adv)"
      and pos: "n0 + adv > n0"
      and cap: "\<not> int (length snaps) \<ge> tl_binomial_snapshots st + 1"
      and R: "tl_readvance N (st\<lparr>tl_n := n0 + adv\<rparr>) (snaps @ [n0])
                (tr @ [(Configure True False, st),
                       (Forward n0 (n0 + adv), st\<lparr>tl_n := n0 + adv\<rparr>),
                       (Write n0 (tl_binomial_storage st), st\<lparr>tl_n := n0 + adv\<rparr>),
                       (Clear True True, st\<lparr>tl_n := n0 + adv\<rparr>)])
              = Some (tr', Inr (st', snaps'))"
      unfolding n0_def
      by (subst (asm) tl_readvance.simps)
         (auto simp: Let_def split: option.splits sum.splits if_splits)
    let ?st1 = "st\<lparr>tl_n := n0 + adv\<rparr>"
    let ?es = "[(Configure True False, st), (Forward n0 (n0 + adv), ?st1),
                (Write n0 (tl_binomial_storage st), ?st1), (Clear True True, ?st1)]"
    have e1: "tl_ext N st tr (tr @ ?es) ?st1"
      using tl_ext_app[of N st ?es tr] by (simp add: tl_step_def)
    have ok: "snaps_ok N n0s (tl_period ?st1) (snaps @ [n0])"
      using "1.prems" True by (auto intro!: snaps_ok_snoc simp: n0_def)
    have "tl_ext N ?st1 (tr @ ?es) tr' st' \<and> snaps_ok N n0s (tl_period ?st1) snaps'
          \<and> tl_r st' = tl_r ?st1"
      using "1.IH"[OF True refl refl refl, of "Inr adv" adv] A pos cap R ok "1.prems"
      unfolding n0_def by (auto simp: Let_def)
    then show ?thesis using tl_ext_trans[OF e1] by simp
  qed
qed

text \<open>The \<open>Read\<close> action that opens a turn of the period loop.\<close>

definition restore_read :: "int \<Rightarrow> int \<Rightarrow> twolevel \<Rightarrow> int list \<Rightarrow> action" where
  "restore_read N n0s st snaps =
     (if last snaps = n0s then Read (last snaps) ''disk'' False
      else Read (last snaps) (tl_binomial_storage st) (last snaps = N - tl_r st - 1))"

lemma tl_restore_ext:
  assumes "tl_restore N n0s st snaps tr = Some (tr', Inr (st', snaps'))"
    and ok: "snaps_ok N n0s (tl_period st) snaps"
    and B: "1 \<le> tl_period st" "n0s mod tl_period st = 0" "0 \<le> n0s" "n0s < N"
      "0 \<le> tl_r st" "N - tl_r st \<le> n0s + tl_period st"
  shows "tl_ext N st tr tr' st' \<and> snaps_ok N n0s (tl_period st) snaps' \<and> tl_r st' = tl_r st
         \<and> (\<exists>s rest. tr' = tr @ (restore_read N n0s st snaps, s) # rest)"
proof -
  have ne: "snaps \<noteq> []" using assms(1) by (auto simp: tl_restore_def)
  define cp_n where "cp_n = last snaps"
  define st1 where "st1 = st\<lparr>tl_n := cp_n\<rparr>"
  define rd where "rd d = (if cp_n = n0s then Read cp_n ''disk'' False
                           else Read cp_n (tl_binomial_storage st) d)" for d
  have range: "n0s \<le> cp_n \<and> cp_n < N \<and> (cp_n \<noteq> n0s \<longrightarrow> cp_n mod tl_period st \<noteq> 0)"
  proof (cases "cp_n = n0s")
    case True
    then show ?thesis using B by simp
  next
    case False
    then have "n0s < cp_n \<and> cp_n < n0s + tl_period st \<and> cp_n < N"
      using snaps_ok_last[OF ok ne] by (simp add: cp_n_def)
    then show ?thesis using inside_period_mod[OF B(2), of cp_n] by simp
  qed
  have rd_step: "tl_step N p st (rd d) st1" for p d
    using range B by (auto simp: tl_step_def rd_def st1_def)
  show ?thesis
  proof (cases "cp_n = N - tl_r st - 1")
    case True
    have res: "tr' = tr @ [(rd True, st1), (Clear True True, st1)]"
      "st' = st1" "snaps' = butlast snaps"
      using assms(1) ne True
      by (auto simp: tl_restore_def Let_def cp_n_def st1_def rd_def)
    have "tl_ext N st tr tr' st1"
      unfolding res(1)
      using tl_ext_app[of N st "[(rd True, st1), (Clear True True, st1)]" tr] rd_step
      by (simp add: tl_step_def)
    moreover have "snaps_ok N n0s (tl_period st) snaps'"
      unfolding res(3) using ok by (rule snaps_ok_butlast)
    moreover have "\<exists>s rest. tr' = tr @ (restore_read N n0s st snaps, s) # rest"
      unfolding res(1) rd_def cp_n_def restore_read_def using True by (auto simp: cp_n_def)
    ultimately show ?thesis unfolding res(2) by (simp add: st1_def)
  next
    case False
    let ?es = "[(rd False, st1), (Clear True True, st1), (Configure False False, st1)]"
    from assms(1) ne False obtain adv where
      pos: "cp_n + adv > cp_n"
      and R: "tl_readvance N (st1\<lparr>tl_n := cp_n + adv\<rparr>) snaps
                (tr @ [(rd False, st1), (Clear True True, st1), (Configure False False, st1),
                       (Forward cp_n (cp_n + adv), st1\<lparr>tl_n := cp_n + adv\<rparr>),
                       (Clear True True, st1\<lparr>tl_n := cp_n + adv\<rparr>)])
              = Some (tr', Inr (st', snaps'))"
      unfolding st1_def cp_n_def rd_def
      by (auto simp: tl_restore_def Let_def
               split: option.splits sum.splits if_splits prod.splits)
    let ?st2 = "st1\<lparr>tl_n := cp_n + adv\<rparr>"
    let ?es = "[(rd False, st1), (Clear True True, st1), (Configure False False, st1),
                (Forward cp_n (cp_n + adv), ?st2), (Clear True True, ?st2)]"
    have e1: "tl_ext N st tr (tr @ ?es) ?st2"
      using tl_ext_app[of N st ?es tr] rd_step by (simp add: tl_step_def st1_def)
    have "tl_ext N ?st2 (tr @ ?es) tr' st' \<and> snaps_ok N n0s (tl_period ?st2) snaps'
          \<and> tl_r st' = tl_r ?st2"
      using R ok ne range pos B
      by (intro tl_readvance_ext) (simp_all add: st1_def)
    moreover have "\<exists>s rest. tr' = tr @ (restore_read N n0s st snaps, s) # rest"
    proof -
      from calculation obtain ext where "tr' = (tr @ ?es) @ ext"
        unfolding tl_ext_def by blast
      then show ?thesis unfolding rd_def cp_n_def restore_read_def using False
        by (auto simp: cp_n_def)
    qed
    ultimately show ?thesis using tl_ext_trans[OF e1] by (simp add: st1_def)
  qed
qed

lemma tl_adjoint_ext:
  assumes "tl_adjoint st tr = (tr', st')"
  shows "tl_ext N st tr tr' st' \<and> tl_r st' = tl_r st + 1"
proof -
  define k where "k = (tl_keep_block_0_ics st \<and> tl_n st = 0)"
  define st1 where "st1 = st\<lparr>tl_n := tl_n st + 1\<rparr>"
  define st2 where "st2 = st1\<lparr>tl_r := tl_r st1 + 1\<rparr>"
  define c where "c = (\<not> tl_keep_block_0_ics st2 \<or> tl_n st2 \<noteq> 1)"
  let ?es = "[(Configure k True, st), (Forward (tl_n st1 - 1) (tl_n st1), st1),
              (Reverse (tl_n st2) (tl_n st2 - 1), st2), (Clear c True, st2)]"
  have res: "tr' = tr @ ?es" "st' = st2"
    using assms by (auto simp: tl_adjoint_def Let_def st1_def st2_def c_def k_def)
  have "tl_ext N st tr tr' st2"
    unfolding res(1) using tl_ext_app[of N st ?es tr]
    by (simp add: tl_step_def st1_def st2_def)
  then show ?thesis unfolding res(2) by (simp add: st2_def st1_def)
qed

lemma tl_period_loop_ext:
  "tl_period_loop N n0s st snaps tr = Some (tr', Inr (st', snaps')) \<Longrightarrow>
   snaps_ok N n0s (tl_period st) snaps \<Longrightarrow>
   1 \<le> tl_period st \<Longrightarrow> n0s mod tl_period st = 0 \<Longrightarrow> 0 \<le> n0s \<Longrightarrow> n0s < N \<Longrightarrow>
   0 \<le> tl_r st \<Longrightarrow> N - tl_r st \<le> n0s + tl_period st \<Longrightarrow>
     tl_ext N st tr tr' st'
     \<and> (tl_r st < N - n0s \<longrightarrow>
          (\<exists>s rest. tr' = tr @ (restore_read N n0s st snaps, s) # rest))"
proof (induction N n0s st snaps tr rule: tl_period_loop.induct)
  case (1 N n0s st snaps tr)
  show ?case
  proof (cases "tl_r st < N - n0s")
    case False
    then show ?thesis using "1.prems"
      by (simp add: tl_period_loop.simps[of N n0s st snaps tr] tl_ext_refl)
  next
    case True
    from "1.prems"(1) True obtain tr1 st1 snaps1 tr2 st2 where
      R: "tl_restore N n0s st snaps tr = Some (tr1, Inr (st1, snaps1))"
      and A: "tl_adjoint st1 tr1 = (tr2, st2)"
      and L: "tl_period_loop N n0s st2 snaps1 tr2 = Some (tr', Inr (st', snaps'))"
      by (subst (asm) tl_period_loop.simps)
         (auto split: option.splits sum.splits prod.splits)
    have r1: "tl_ext N st tr tr1 st1" "snaps_ok N n0s (tl_period st) snaps1"
      "tl_r st1 = tl_r st"
      and first: "\<exists>s rest. tr1 = tr @ (restore_read N n0s st snaps, s) # rest"
      using tl_restore_ext[OF R "1.prems"(2-8)] by simp_all
    have a1: "tl_ext N st1 tr1 tr2 st2" "tl_r st2 = tl_r st1 + 1"
      using tl_adjoint_ext[OF A, of N] by simp_all
    have e2: "tl_ext N st tr tr2 st2" using tl_ext_trans[OF r1(1) a1(1)] .
    have p2: "tl_period st2 = tl_period st" using tl_ext_const(3)[OF e2] .
    have "tl_ext N st2 tr2 tr' st'"
      using "1.IH"[OF True R refl refl refl A[symmetric] L] r1 a1 p2 "1.prems" True
      by simp
    then have e3: "tl_ext N st tr tr' st'" using tl_ext_trans[OF e2] by simp
    moreover have "\<exists>s rest. tr' = tr @ (restore_read N n0s st snaps, s) # rest"
    proof -
      from first obtain s rest where t1: "tr1 = tr @ (restore_read N n0s st snaps, s) # rest"
        by blast
      from a1(1) \<open>tl_ext N st2 tr2 tr' st'\<close> obtain x y where "tr2 = tr1 @ x" "tr' = tr2 @ y"
        unfolding tl_ext_def by blast
      then show ?thesis using t1 by auto
    qed
    ultimately show ?thesis by simp
  qed
qed


lemma period_start_facts:
  fixes n p :: int
  assumes "1 \<le> p" "0 \<le> n"
  defines "n0s \<equiv> (n div p) * p"
  shows "n0s mod p = 0" "0 \<le> n0s" "n0s \<le> n" "n < n0s + p"
proof -
  show "n0s mod p = 0" by (simp add: n0s_def)
  have "0 \<le> n div p" using assms(1,2) by (simp add: pos_imp_zdiv_nonneg_iff)
  then show "0 \<le> n0s" using assms(1) by (simp add: n0s_def)
  have "n = n0s + n mod p" by (simp add: n0s_def)
  moreover have "0 \<le> n mod p" "n mod p < p" using assms(1) by simp_all
  ultimately show "n0s \<le> n" "n < n0s + p" by linarith+
qed

lemma multiple_in_period:
  fixes k q p :: int
  assumes "1 \<le> p" "q * p \<le> k * p" "k * p < q * p + p"
  shows "k * p = q * p"
proof -
  have "k * p < (q + 1) * p" using assms(3) by (simp add: algebra_simps)
  then have "k < q + 1" using assms(1) by (simp add: mult_less_cancel_right)
  moreover have "q \<le> k" using assms(1,2) by (simp add: mult_le_cancel_right)
  ultimately show ?thesis by simp
qed

text \<open>A reverse sweep over \<open>N - r\<close> remaining steps is a chain of steps, and it reads
  the period snapshot of every period it crosses.\<close>

lemma tl_reverse_ext:
  "tl_reverse N st tr = Some (tr', Inr st') \<Longrightarrow> 1 \<le> tl_period st \<Longrightarrow> 0 \<le> tl_r st \<Longrightarrow>
     (\<exists>ext. tr' = tr @ ext \<and> (\<forall>p. tl_chain N p st ext) \<and> last_state st ext = st'
        \<and> (\<forall>k. 0 \<le> k \<and> k * tl_period st < N - tl_r st \<longrightarrow>
              Read (k * tl_period st) ''disk'' False \<in> set (actions ext)))
     \<and> \<not> tl_r st' < N"
proof (induction N st tr rule: tl_reverse.induct)
  case (1 N st tr)
  show ?case
  proof (cases "tl_r st < N")
    case False
    then have "tr' = tr" "st' = st" using "1.prems"(1)
      by (simp_all add: tl_reverse.simps[of N st tr])
    moreover have "\<not> (0 \<le> k \<and> k * tl_period st < N - tl_r st)" for k
    proof
      assume k: "0 \<le> k \<and> k * tl_period st < N - tl_r st"
      then have "0 \<le> k * tl_period st" using "1.prems"(2) by simp
      then show False using k False by simp
    qed
    ultimately show ?thesis using False
      by (intro conjI exI[of _ "[]"]) (auto simp: actions_def)
  next
    case True
    define p where "p = tl_period st"
    define n where "n = N - tl_r st - 1"
    define n0s where "n0s = (n div p) * p"
    define n1s where "n1s = min (n0s + p) N"
    have p1: "1 \<le> p" using "1.prems"(2) by (simp add: p_def)
    have n0: "0 \<le> n" using True by (simp add: n_def)
    have pf: "n0s mod p = 0" "0 \<le> n0s" "n0s \<le> n" "n < n0s + p"
      using period_start_facts[OF p1 n0] by (simp_all add: n0s_def)
    from "1.prems"(1) True p1 obtain tr1 st1 snaps1 where
      chk: "tl_r st = N - n1s"
      and L: "tl_period_loop N n0s st [n0s] tr = Some (tr1, Inr (st1, snaps1))"
      and chk1: "tl_r st1 = N - n0s" "snaps1 = []"
      and R: "tl_reverse N st1 tr1 = Some (tr', Inr st')"
      unfolding n1s_def n0s_def n_def p_def
      by (subst (asm) tl_reverse.simps)
         (auto simp: Let_def split: option.splits sum.splits prod.splits if_splits)
    have lt: "tl_r st < N - n0s" using chk pf n0 by (simp add: n1s_def n_def)
    have le: "N - tl_r st \<le> n0s + p" using chk by (simp add: n1s_def)
    have nN: "n0s < N" using pf by (simp add: n_def) (use "1.prems"(3) in linarith)
    have pl: "tl_ext N st tr tr1 st1"
      and first: "\<exists>s rest. tr1 = tr @ (restore_read N n0s st [n0s], s) # rest"
      using tl_period_loop_ext[OF L, unfolded p_def[symmetric]] pf p1 nN "1.prems"(3) le lt
      by (simp_all add: snaps_ok_def p_def)
    from pl obtain e1 where
      e1: "tr1 = tr @ e1" "\<forall>q. tl_chain N q st e1" "last_state st e1 = st1"
      unfolding tl_ext_def by blast
    have rd1: "Read n0s ''disk'' False \<in> set (actions e1)"
      using first e1(1) by (auto simp: restore_read_def actions_def)
    have p2: "tl_period st1 = p" using tl_ext_const(3)[OF pl] by (simp add: p_def)
    have r1: "0 \<le> tl_r st1" using chk1 nN by simp
    have IH: "(\<exists>ext. tr' = tr1 @ ext \<and> (\<forall>q. tl_chain N q st1 ext) \<and> last_state st1 ext = st'
        \<and> (\<forall>k. 0 \<le> k \<and> k * tl_period st1 < N - tl_r st1 \<longrightarrow>
              Read (k * tl_period st1) ''disk'' False \<in> set (actions ext)))
     \<and> \<not> tl_r st' < N"
      by (rule "1.IH"[OF True _ refl refl refl _ L[unfolded n0s_def n_def p_def]
                 refl refl refl _ _ R])
         (use p1 chk chk1 p2 r1 in \<open>simp_all add: n1s_def n0s_def n_def p_def\<close>)
    then obtain e2 where
      e2: "tr' = tr1 @ e2" "\<forall>q. tl_chain N q st1 e2" "last_state st1 e2 = st'"
        "\<forall>k. 0 \<le> k \<and> k * p < N - tl_r st1 \<longrightarrow> Read (k * p) ''disk'' False \<in> set (actions e2)"
      and stop: "\<not> tl_r st' < N"
      unfolding p2 by blast
    have ch: "\<forall>q. tl_chain N q st (e1 @ e2)"
      using e1 e2 by (simp add: tl_chain_append)
    have reads: "Read (k * p) ''disk'' False \<in> set (actions (e1 @ e2))"
      if k: "0 \<le> k" "k * p < N - tl_r st" for k
    proof (cases "k * p < n0s")
      case True
      then show ?thesis using e2(4) k chk1 by (simp add: actions_def)
    next
      case False
      have "k * p \<le> n" using k by (simp add: n_def)
      then have "k * p < (n div p) * p + p" using pf(4) by (simp add: n0s_def)
      moreover have "(n div p) * p \<le> k * p" using False by (simp add: n0s_def)
      ultimately have "k * p = n0s"
        using multiple_in_period[OF p1, of "n div p" k] by (simp add: n0s_def)
      then show ?thesis using rd1 by (simp add: actions_def)
    qed
    show ?thesis
      using e1 e2 ch reads stop
      by (intro conjI exI[of _ "e1 @ e2"]) (auto simp: p_def)
  qed
qed

lemma tl_sweep_Inr:
  assumes "tl_sweep N st tr = Some (tr', Inr st')"
  obtains tr1 st1 where "tl_reverse N st tr = Some (tr1, Inr st1)" "tl_r st1 = N"
    "tr' = tr1 @ [(EndReverse False, st')]" "st' = st1\<lparr>tl_r := 0\<rparr>"
proof -
  obtain tr1 out where R0: "tl_reverse N st tr = Some (tr1, out)"
    using assms by (cases "tl_reverse N st tr") (auto simp: tl_sweep_def)
  obtain st1 where out: "out = Inr st1"
    using assms R0 by (cases out) (auto simp: tl_sweep_def)
  have "tl_r st1 = N \<and> tr' = tr1 @ [(EndReverse False, st')] \<and> st' = st1\<lparr>tl_r := 0\<rparr>"
    using assms R0 out by (auto simp: tl_sweep_def Let_def split: if_splits)
  then show ?thesis using R0 out that by blast
qed

lemma tl_sweep_shape:
  assumes "tl_sweep N st tr = Some (tr', Inr st')" "1 \<le> tl_period st" "0 \<le> tl_r st"
  shows "\<exists>ext s. tr' = tr @ ext @ [(EndReverse False, st')]
           \<and> (\<forall>p. tl_chain N p st ext) \<and> last_state st ext = s
           \<and> tl_r s = N \<and> st' = s\<lparr>tl_r := 0\<rparr>
           \<and> (\<forall>k. 0 \<le> k \<and> k * tl_period st < N - tl_r st \<longrightarrow>
                 Read (k * tl_period st) ''disk'' False \<in> set (actions ext))"
proof -
  from assms(1) obtain tr1 st1 where
    R: "tl_reverse N st tr = Some (tr1, Inr st1)"
    and fin: "tl_r st1 = N" "tr' = tr1 @ [(EndReverse False, st')]" "st' = st1\<lparr>tl_r := 0\<rparr>"
    by (rule tl_sweep_Inr)
  from tl_reverse_ext[OF R assms(2,3)] obtain ext where
    e: "tr1 = tr @ ext" "\<forall>p. tl_chain N p st ext" "last_state st ext = st1"
    "\<forall>k. 0 \<le> k \<and> k * tl_period st < N - tl_r st \<longrightarrow>
        Read (k * tl_period st) ''disk'' False \<in> set (actions ext)"
    by blast
  have "tr' = tr @ ext @ [(EndReverse False, st')]" using fin(2) e(1) by simp
  then show ?thesis using e(2,3,4) fin(1,3) by blast
qed

text \<open>The reverse sweep assigns \<open>n\<close> before it reads it.\<close>

lemma tl_restore_n:
  "tl_restore N n0s (st\<lparr>tl_n := x\<rparr>) snaps tr = tl_restore N n0s st snaps tr"
  by (simp add: tl_restore_def Let_def split del: if_split
        cong: if_cong option.case_cong sum.case_cong prod.case_cong)

lemma tl_period_loop_n:
  assumes "tl_r st < N - n0s"
  shows "tl_period_loop N n0s (st\<lparr>tl_n := x\<rparr>) snaps tr = tl_period_loop N n0s st snaps tr"
  using assms
  by (simp add: tl_period_loop.simps[of N n0s "st\<lparr>tl_n := x\<rparr>"]
        tl_period_loop.simps[of N n0s st] tl_restore_n)

lemma tl_period_loop_skip:
  assumes "\<not> tl_r s < N - m"
  shows "tl_period_loop N m s snaps tr = Some (tr, Inr (s, snaps))"
  using assms by (simp add: tl_period_loop.simps[of N m s snaps tr])

lemma tl_reverse_n:
  assumes "tl_r st < N"
  shows "tl_reverse N (st\<lparr>tl_n := x\<rparr>) tr = tl_reverse N st tr"
proof (cases "tl_period st = 0")
  case True
  then show ?thesis using assms
    by (simp add: tl_reverse.simps[of N "st\<lparr>tl_n := x\<rparr>" tr] tl_reverse.simps[of N st tr])
next
  case False
  define n0s where "n0s = (N - tl_r st - 1) div tl_period st * tl_period st"
  define n1s where "n1s = min (n0s + tl_period st) N"
  define after where "after = (\<lambda>res :: (twolevel, twolevel \<times> int list) run.
     case res of
       None \<Rightarrow> None
     | Some (tr1, Inl e) \<Rightarrow> Some (tr1, Inl e)
     | Some (tr1, Inr (st1, snapshots1)) \<Rightarrow>
         if tl_r st1 \<noteq> N - n0s then Some (tr1, Inl RuntimeError)
         else if length snapshots1 \<noteq> 0 then Some (tr1, Inl RuntimeError)
         else tl_reverse N st1 tr1)"
  have lhs: "tl_reverse N (st\<lparr>tl_n := x\<rparr>) tr =
      (if tl_r st \<noteq> N - n1s then Some (tr, Inl RuntimeError)
       else after (tl_period_loop N n0s (st\<lparr>tl_n := x\<rparr>) [n0s] tr))"
    unfolding after_def n1s_def n0s_def
    by (subst tl_reverse.simps) (simp add: assms False Let_def)
  have rhs: "tl_reverse N st tr =
      (if tl_r st \<noteq> N - n1s then Some (tr, Inl RuntimeError)
       else after (tl_period_loop N n0s st [n0s] tr))"
    unfolding after_def n1s_def n0s_def
    by (subst tl_reverse.simps) (simp add: assms False Let_def)
  have "after (tl_period_loop N n0s (st\<lparr>tl_n := x\<rparr>) [n0s] tr)
        = after (tl_period_loop N n0s st [n0s] tr)"
  proof (cases "tl_r st < N - n0s")
    case True
    then show ?thesis by (simp add: tl_period_loop_n)
  next
    case nolt: False
    have "tl_period_loop N n0s (st\<lparr>tl_n := x\<rparr>) [n0s] tr
            = Some (tr, Inr (st\<lparr>tl_n := x\<rparr>, [n0s]))"
      using nolt by (intro tl_period_loop_skip) simp
    moreover have "tl_period_loop N n0s st [n0s] tr = Some (tr, Inr (st, [n0s]))"
      using nolt by (intro tl_period_loop_skip) simp
    ultimately show ?thesis by (simp add: after_def)
  qed
  then show ?thesis unfolding lhs rhs by simp
qed

lemma tl_sweep_n:
  assumes "tl_r st < N"
  shows "tl_sweep N (st\<lparr>tl_n := x\<rparr>) tr = tl_sweep N st tr"
  by (simp add: tl_sweep_def tl_reverse_n[OF assms])

text \<open>After a complete sweep from \<open>r = 0\<close> the next sweep is the same sweep.\<close>

lemma tl_sweep_fixed:
  assumes "tl_sweep N st [] = Some (sw, Inr st1)" "1 \<le> tl_period st" "tl_r st = 0"
  shows "tl_sweep N st1 [] = Some (sw, Inr st1) \<and> tl_r st1 = 0
         \<and> tl_period st1 = tl_period st \<and> (\<exists>pre. sw = pre @ [(EndReverse False, st1)])"
proof -
  from tl_sweep_shape[OF assms(1,2)] assms(3) obtain ext s where
    sw: "sw = ext @ [(EndReverse False, st1)]"
    and ch: "tl_chain N None st ext" and ls: "last_state st ext = s"
    and fin: "tl_r s = N" "st1 = s\<lparr>tl_r := 0\<rparr>"
    by auto
  have c: "tl_max_n s = tl_max_n st" "tl_period s = tl_period st"
    "tl_binomial_snapshots s = tl_binomial_snapshots st"
    "tl_binomial_storage s = tl_binomial_storage st"
    "tl_keep_block_0_ics s = tl_keep_block_0_ics st"
    "tl_trajectory s = tl_trajectory st"
    using tl_chain_const[OF ch] ls by simp_all
  have st1: "st1 = st\<lparr>tl_n := tl_n s\<rparr>"
    using c fin(2) assms(3) by (intro twolevel.equality) simp_all
  have same: "tl_sweep N st1 [] = Some (sw, Inr st1)"
  proof (cases "0 < N")
    case True
    then show ?thesis unfolding st1 using tl_sweep_n[of st N "tl_n s" "[]"] assms(1,3) st1
      by simp
  next
    case False
    then have "tl_reverse N st [] = Some ([], Inr st)"
      using assms(3) by (simp add: tl_reverse.simps[of N st "[]"])
    then have "sw = [(EndReverse False, st1)]"
      using assms(1) by (auto simp: tl_sweep_def Let_def split: if_splits)
    then have "ext = []" using sw by simp
    then have "s = st" using ls by simp
    then have "st1 = st" using st1 by simp
    then show ?thesis using assms(1) by simp
  qed
  show ?thesis using same fin(2) c(2) sw by auto
qed

lemma tl_sweeps_repeat:
  assumes "tl_sweep N st1 [] = Some (sw, Inr st1)"
  shows "tl_sweeps m N st1 = Some (concat (replicate m sw), Inr st1)"
  using assms by (induction m) simp_all


section \<open>Whole drives of the two-level schedule\<close>

text \<open>The actions of a forward sweep: one block of \<open>Configure\<close>, \<open>Forward\<close>, \<open>Write\<close> to
  disk at the step the \<open>Forward\<close> started from, and \<open>Clear\<close> for each period.\<close>

fun is_forward_sweep :: "action list \<Rightarrow> bool" where
  "is_forward_sweep [] = True"
| "is_forward_sweep (Configure c1 c2 # Forward n0 n1 # Write n tier # Clear x y # as) =
     (n = n0 \<and> tier = ''disk'' \<and> is_forward_sweep as)"
| "is_forward_sweep as = False"

lemma tl_forward_ext:
  "tl_forward st ds tr = (tr', Inr st') \<Longrightarrow>
     \<exists>ext. tr' = tr @ ext \<and> is_forward_sweep (actions ext)
       \<and> tl_r st' = tl_r st \<and> tl_period st' = tl_period st
       \<and> tl_binomial_storage st' = tl_binomial_storage st"
proof (induction ds arbitrary: st tr)
  case Nil
  then show ?case by (simp add: actions_def)
next
  case (Cons d ds)
  show ?case
  proof (cases "tl_max_n st = None")
    case False
    then have "tr' = tr" "st' = st" using Cons.prems by auto
    then show ?thesis by (intro exI[of _ "[]"]) (simp add: actions_def)
  next
    case True
    define st0 where "st0 = (case d of AtConfigure N \<Rightarrow> finalize N st | _ \<Rightarrow> st)"
    define st1 where "st1 = st0\<lparr>tl_n := tl_n st0 + tl_period st0\<rparr>"
    define st2 where "st2 = (case d of AtForward N \<Rightarrow> finalize N st1 | _ \<Rightarrow> st1)"
    define blk where "blk = [(Configure True False, st),
        (Forward (tl_n st0) (tl_n st0 + tl_period st0), st1),
        (Write (tl_n st0) ''disk'', st2), (Clear True True, st2)]"
    have R: "tl_forward st2 ds (tr @ blk) = (tr', Inr st')"
      using Cons.prems True unfolding blk_def st2_def st1_def st0_def
      by (simp add: Let_def split: if_splits)
    have f: "tl_r st2 = tl_r st" "tl_period st2 = tl_period st"
      "tl_binomial_storage st2 = tl_binomial_storage st"
      unfolding st2_def st1_def st0_def
      by (cases d; simp add: finalize_def)+
    from Cons.IH[OF R] obtain ext where
      "tr' = (tr @ blk) @ ext" "is_forward_sweep (actions ext)"
      "tl_r st' = tl_r st2" "tl_period st' = tl_period st2"
      "tl_binomial_storage st' = tl_binomial_storage st2"
      by blast
    then show ?thesis using f
      by (intro exI[of _ "blk @ ext"]) (simp add: blk_def actions_def)
  qed
qed

text \<open>Claim C4's property of a list of actions: every \<open>Write(n, tier)\<close> comes directly
  after a \<open>Forward(n0, n1)\<close>. \<open>write_follows_forward\<close> asks for \<open>n0 = n\<close> (the \<open>Forward\<close>
  started at \<open>n\<close>), \<open>write_follows_forward_end\<close> for \<open>n1 = n\<close> (it ended at \<open>n\<close>);
  \<open>p\<close> is the action before the list.\<close>

fun write_follows_forward :: "action option \<Rightarrow> action list \<Rightarrow> bool" where
  "write_follows_forward p [] = True"
| "write_follows_forward p (a # as) =
     ((case a of
         Write n tier \<Rightarrow> (case p of Some (Forward n0 n1) \<Rightarrow> n0 = n | _ \<Rightarrow> False)
       | _ \<Rightarrow> True)
      \<and> write_follows_forward (Some a) as)"

fun write_follows_forward_end :: "action option \<Rightarrow> action list \<Rightarrow> bool" where
  "write_follows_forward_end p [] = True"
| "write_follows_forward_end p (a # as) =
     ((case a of
         Write n tier \<Rightarrow> (case p of Some (Forward n0 n1) \<Rightarrow> n1 = n | _ \<Rightarrow> False)
       | _ \<Rightarrow> True)
      \<and> write_follows_forward_end (Some a) as)"

lemma wff_append:
  "write_follows_forward p (xs @ ys) =
     (write_follows_forward p xs
      \<and> write_follows_forward (if xs = [] then p else Some (last xs)) ys)"
  by (induction xs arbitrary: p) auto

lemma wff_any_append:
  assumes "\<forall>p. write_follows_forward p xs" "\<forall>p. write_follows_forward p ys"
  shows "\<forall>p. write_follows_forward p (xs @ ys)"
  using assms by (simp add: wff_append)

lemma wff_any_concat:
  assumes "\<forall>p. write_follows_forward p xs"
  shows "\<forall>p. write_follows_forward p (concat (replicate m xs))"
proof (induction m)
  case 0
  show ?case by simp
next
  case (Suc m)
  show ?case using wff_any_append[OF assms Suc] by simp
qed

lemma ms_chain_wff: "ms_chain p s tr \<Longrightarrow> write_follows_forward p (actions tr)"
proof (induction tr arbitrary: p s)
  case Nil
  then show ?case by (simp add: actions_def)
next
  case (Cons x tr)
  obtain a s' where x: "x = (a, s')" by (cases x)
  have st: "ms_step p s a s'" and ch: "ms_chain (Some a) s' tr"
    using Cons.prems by (simp_all add: x)
  have "case a of Write n tier \<Rightarrow> (case p of Some (Forward n0 n1) \<Rightarrow> n0 = n | _ \<Rightarrow> False)
        | _ \<Rightarrow> True"
    using st by (cases a) (auto simp: ms_step_def)
  then show ?case using Cons.IH[OF ch] by (simp add: x actions_def)
qed

lemma tl_chain_wff: "tl_chain N p s tr \<Longrightarrow> write_follows_forward p (actions tr)"
proof (induction tr arbitrary: p s)
  case Nil
  then show ?case by (simp add: actions_def)
next
  case (Cons x tr)
  obtain a s' where x: "x = (a, s')" by (cases x)
  have st: "tl_step N p s a s'" and ch: "tl_chain N (Some a) s' tr"
    using Cons.prems by (simp_all add: x)
  have "case a of Write n tier \<Rightarrow> (case p of Some (Forward n0 n1) \<Rightarrow> n0 = n | _ \<Rightarrow> False)
        | _ \<Rightarrow> True"
    using st by (cases a) (auto simp: tl_step_def)
  then show ?case using Cons.IH[OF ch] by (simp add: x actions_def)
qed

lemma forward_sweep_wff: "is_forward_sweep as \<Longrightarrow> write_follows_forward p as"
  by (induction as arbitrary: p rule: is_forward_sweep.induct) auto

lemma forward_sweep_no_read: "is_forward_sweep as \<Longrightarrow> Read n tier d \<notin> set as"
  by (induction as rule: is_forward_sweep.induct) auto

lemma tl_chain_reads:
  "tl_chain N p s ext \<Longrightarrow> Read n tier d \<in> set (actions ext) \<Longrightarrow>
     0 \<le> n \<and> n < N
     \<and> (if n mod tl_period s = 0 then tier = ''disk'' \<and> \<not> d
         else tier = tl_binomial_storage s)"
proof (induction ext arbitrary: p s)
  case Nil
  then show ?case by (simp add: actions_def)
next
  case (Cons x ext)
  obtain a s' where x: "x = (a, s')" by (cases x)
  have st: "tl_step N p s a s'" and ch: "tl_chain N (Some a) s' ext"
    using Cons.prems(1) by (simp_all add: x)
  have c: "tl_period s' = tl_period s" "tl_binomial_storage s' = tl_binomial_storage s"
    using st by (simp_all add: tl_step_def)
  show ?case
  proof (cases "a = Read n tier d")
    case True
    then show ?thesis using st by (simp add: tl_step_def)
  next
    case False
    then have "Read n tier d \<in> set (actions ext)"
      using Cons.prems(2) by (simp add: x actions_def)
    from Cons.IH[OF ch this] show ?thesis by (simp add: c)
  qed
qed

lemma tl_chain_no_end:
  "tl_chain N p s ext \<Longrightarrow> a \<in> set (actions ext) \<Longrightarrow> a \<noteq> EndReverse b \<and> a \<noteq> EndForward"
proof (induction ext arbitrary: p s)
  case Nil
  then show ?case by (simp add: actions_def)
next
  case (Cons x ext)
  obtain a' s' where x: "x = (a', s')" by (cases x)
  have st: "tl_step N p s a' s'" and ch: "tl_chain N (Some a') s' ext"
    using Cons.prems(1) by (simp_all add: x)
  have "a' \<noteq> EndReverse b \<and> a' \<noteq> EndForward" using st by (cases a') (auto simp: tl_step_def)
  then show ?case using Cons.IH[OF ch] Cons.prems(2) by (auto simp: x actions_def)
qed

text \<open>What the constructor leaves in the fields.\<close>

lemma twolevel_init_fields:
  assumes "twolevel_init disk_period binomial_snapshots binomial_storage keep trajectory = Inr st"
  shows "st = \<lparr>tl_n = 0, tl_r = 0, tl_max_n = None, tl_period = disk_period,
               tl_binomial_snapshots = binomial_snapshots,
               tl_binomial_storage = binomial_storage,
               tl_keep_block_0_ics = keep, tl_trajectory = trajectory\<rparr>"
    "1 \<le> disk_period" "binomial_storage = ''RAM'' \<or> binomial_storage = ''disk''"
  using assms by (auto simp: twolevel_init_def base_init_def split: if_splits)

text \<open>All the sweeps of a drive are the first sweep.\<close>

lemma tl_sweeps_shape:
  assumes "tl_sweeps m N st = Some (tr, Inr st')" "1 \<le> tl_period st" "tl_r st = 0" "0 < m"
  shows "\<exists>sw. tl_sweep N st [] = Some (sw, Inr st') \<and> tl_sweep N st' [] = Some (sw, Inr st')
           \<and> tr = concat (replicate m sw)"
proof -
  from assms(4) obtain m' where m: "m = Suc m'" by (cases m) auto
  obtain sw out where S0: "tl_sweep N st [] = Some (sw, out)"
    using assms(1) unfolding m by (cases "tl_sweep N st []") auto
  obtain st1 where out: "out = Inr st1"
    using assms(1) S0 unfolding m by (cases out) auto
  have S: "tl_sweep N st [] = Some (sw, Inr st1)" using S0 out by simp
  have fx: "tl_sweep N st1 [] = Some (sw, Inr st1)"
    using tl_sweep_fixed[OF S assms(2,3)] by simp
  have rest: "tl_sweeps m' N st1 = Some (concat (replicate m' sw), Inr st1)"
    using tl_sweeps_repeat[OF fx] .
  have "tr = sw @ concat (replicate m' sw) \<and> st' = st1"
    using assms(1) S rest unfolding m by simp
  then show ?thesis using S fx unfolding m by simp
qed

lemma twolevel_iter_shape:
  assumes "twolevel_init disk_period binomial_snapshots binomial_storage keep trajectory = Inr st0"
    and "twolevel_iter st0 ds m = Some (tr, Inr st')"
  shows "\<exists>fwd stf. tl_forward st0 ds [] = (fwd, Inr stf) \<and> is_forward_sweep (actions fwd)
           \<and> tl_r stf = 0 \<and> tl_period stf = disk_period \<and> 1 \<le> disk_period
           \<and> tl_binomial_storage stf = binomial_storage
           \<and> (case tl_max_n stf of
                 None \<Rightarrow> tr = fwd \<and> st' = stf
               | Some N \<Rightarrow>
                   (\<exists>sws. tl_sweeps m N stf = Some (sws, Inr st')
                      \<and> tr = fwd @ [(EndForward, stf)] @ sws))"
proof -
  note f0 = twolevel_init_fields[OF assms(1)]
  obtain fwd out where F0: "tl_forward st0 ds [] = (fwd, out)"
    by (cases "tl_forward st0 ds []")
  obtain stf where out: "out = Inr stf"
    using assms(2) F0 by (cases out) (auto simp: twolevel_iter_def)
  have F: "tl_forward st0 ds [] = (fwd, Inr stf)" using F0 out by simp
  from tl_forward_ext[OF F] have fw: "is_forward_sweep (actions fwd)" "tl_r stf = tl_r st0"
    "tl_period stf = tl_period st0" "tl_binomial_storage stf = tl_binomial_storage st0"
    by auto
  have base: "tl_r stf = 0" "tl_period stf = disk_period"
    "tl_binomial_storage stf = binomial_storage"
    using fw(2-4) by (simp_all add: f0(1))
  have "case tl_max_n stf of
          None \<Rightarrow> tr = fwd \<and> st' = stf
        | Some N \<Rightarrow>
            (\<exists>sws. tl_sweeps m N stf = Some (sws, Inr st')
               \<and> tr = fwd @ [(EndForward, stf)] @ sws)"
  proof (cases "tl_max_n stf")
    case None
    then show ?thesis using assms(2) F by (simp add: twolevel_iter_def)
  next
    case (Some N)
    obtain sws o2 where S0: "tl_sweeps m N stf = Some (sws, o2)"
      using assms(2) F Some by (cases "tl_sweeps m N stf") (auto simp: twolevel_iter_def)
    then show ?thesis using assms(2) F Some by (simp add: twolevel_iter_def)
  qed
  then show ?thesis using F fw(1) base f0(2) by blast
qed

lemma actions_append [simp]: "actions (xs @ ys) = actions xs @ actions ys"
  by (simp add: actions_def)

lemma actions_Nil [simp]: "actions [] = []"
  by (simp add: actions_def)

lemma actions_Cons [simp]: "actions (x # xs) = fst x # actions xs"
  by (simp add: actions_def)

lemma actions_concat_replicate:
  "actions (concat (replicate m xs)) = concat (replicate m (actions xs))"
  by (induction m) simp_all


lemma constructed2E:
  assumes "case x of Inr y \<Rightarrow> Q y | Inl e \<Rightarrow> False"
  obtains y where "x = Inr y" "Q y"
  using assms by (cases x) auto




text \<open>The three shapes of a drive of the two-level schedule: the driver stopped before
  it finalized; it finalized and asked for no reverse sweep; it asked for \<open>m > 0\<close>
  reverse sweeps, which are all the same sweep \<open>sw\<close>.\<close>

lemma twolevel_drive_cases:
  assumes "twolevel_init disk_period binomial_snapshots binomial_storage keep trajectory = Inr st0"
    and "twolevel_iter st0 ds m = Some (tr, Inr st')"
  obtains
    (unfinished) "is_forward_sweep (actions tr)" "tl_max_n st' = None"
      "tl_forward st0 ds [] = (tr, Inr st')"
  | (no_sweep) fwd where "tr = fwd @ [(EndForward, st')]" "is_forward_sweep (actions fwd)"
      "m = 0" "tl_forward st0 ds [] = (fwd, Inr st')" "tl_max_n st' \<noteq> None"
  | (sweeps) fwd stf N sw ext where
      "tl_forward st0 ds [] = (fwd, Inr stf)" "is_forward_sweep (actions fwd)"
      "tl_max_n stf = Some N" "tl_r stf = 0" "tl_period stf = disk_period"
      "tl_binomial_storage stf = binomial_storage"
      "tl_sweep N stf [] = Some (sw, Inr st')" "tl_sweep N st' [] = Some (sw, Inr st')"
      "tr = fwd @ [(EndForward, stf)] @ concat (replicate m sw)" "0 < m"
      "sw = ext @ [(EndReverse False, st')]" "\<forall>q. tl_chain N q stf ext" "tl_r st' = 0"
      "\<forall>k. 0 \<le> k \<and> k * disk_period < N \<longrightarrow>
          Read (k * disk_period) ''disk'' False \<in> set (actions ext)"
proof -
  from twolevel_iter_shape[OF assms(1,2)] obtain fwd stf where
    F: "tl_forward st0 ds [] = (fwd, Inr stf)" and fw: "is_forward_sweep (actions fwd)"
    and r0: "tl_r stf = 0" and p: "tl_period stf = disk_period" "1 \<le> disk_period"
    and bs: "tl_binomial_storage stf = binomial_storage"
    and rest: "case tl_max_n stf of
                 None \<Rightarrow> tr = fwd \<and> st' = stf
               | Some N \<Rightarrow>
                   (\<exists>sws. tl_sweeps m N stf = Some (sws, Inr st')
                      \<and> tr = fwd @ [(EndForward, stf)] @ sws)"
    by blast
  show ?thesis
  proof (cases "tl_max_n stf")
    case None
    then show ?thesis using rest F fw unfinished by simp
  next
    case (Some N)
    then obtain sws where S: "tl_sweeps m N stf = Some (sws, Inr st')"
      and tr: "tr = fwd @ [(EndForward, stf)] @ sws"
      using rest by auto
    show ?thesis
    proof (cases "0 < m")
      case False
      then have "sws = []" "st' = stf" using S by simp_all
      then show ?thesis using no_sweep[of fwd] tr fw F False Some by simp
    next
      case True
      from tl_sweeps_shape[OF S _ r0 True] p obtain sw where
        sw: "tl_sweep N stf [] = Some (sw, Inr st')" "tl_sweep N st' [] = Some (sw, Inr st')"
        and sws: "sws = concat (replicate m sw)"
        by auto
      from tl_sweep_shape[OF sw(1)] p r0 obtain ext s where
        e: "sw = ext @ [(EndReverse False, st')]" "\<forall>q. tl_chain N q stf ext"
          "st' = s\<lparr>tl_r := 0\<rparr>"
          "\<forall>k. 0 \<le> k \<and> k * disk_period < N \<longrightarrow>
              Read (k * disk_period) ''disk'' False \<in> set (actions ext)"
        by auto
      have r': "tl_r st' = 0" using e(3) by simp
      have tr': "tr = fwd @ [(EndForward, stf)] @ concat (replicate m sw)"
        using tr sws by simp
      show ?thesis
        by (rule sweeps[OF F fw Some r0 p(1) bs sw tr' True e(1,2) r' e(4)])
    qed
  qed
qed

lemma in_concat_replicate:
  "x \<in> set (concat (replicate m xs)) \<Longrightarrow> x \<in> set xs"
  by (induction m) auto




lemma concat_replicate_snoc:
  "concat (replicate m xs) @ xs = xs @ concat (replicate m xs)"
  by (induction m) simp_all




text \<open>Claim C9. A two-level schedule with \<open>disk_period = 5\<close>, finalized at \<open>max_n = 15\<close>
  and driven through \<open>m > 0\<close> reverse sweeps. When the driver finalizes during the third
  \<open>Forward\<close> (three full periods), the forward sweep writes the period snapshots of steps
  \<open>0\<close>, \<open>5\<close> and \<open>10\<close> and no other. Whenever the driver finalizes at \<open>15\<close>, each
  reverse sweep reads snapshots of steps below \<open>15\<close> only, and the period boundaries it
  reads are exactly \<open>0\<close>, \<open>5\<close> and \<open>10\<close>, from disk and without deleting.\<close>

theorem twolevel_three_periods:
  assumes "twolevel_init 5 binomial_snapshots binomial_storage keep trajectory = Inr st0"
    and "twolevel_iter st0 ds m = Some (tr, Inr st')"
    and "tl_max_n st' = Some 15" "0 < m"
  shows "\<exists>fwd sw.
           actions tr = fwd @ [EndForward] @ concat (replicate m sw)
           \<and> (ds = [NotFinalized, NotFinalized, AtForward 15] \<longrightarrow>
                fwd = [Configure True False, Forward 0 5, Write 0 ''disk'', Clear True True,
                       Configure True False, Forward 5 10, Write 5 ''disk'', Clear True True,
                       Configure True False, Forward 10 15, Write 10 ''disk'', Clear True True])
           \<and> {n. \<exists>tier d. Read n tier d \<in> set sw \<and> n mod 5 = 0} = {0, 5, 10}
           \<and> (\<forall>n tier d. Read n tier d \<in> set sw \<longrightarrow>
                 0 \<le> n \<and> n < 15 \<and> (n mod 5 = 0 \<longrightarrow> tier = ''disk'' \<and> \<not> d))"
  using assms(1,2)
proof (cases rule: twolevel_drive_cases)
  case unfinished
  then show ?thesis using assms(3) by simp
next
  case (no_sweep fwd)
  then show ?thesis using assms(4) by simp
next
  case (sweeps fwd stf N sw ext)
  note f0 = twolevel_init_fields[OF assms(1)]
  have c: "tl_max_n st' = tl_max_n stf"
  proof -
    from sweeps(7) obtain tr1 st1 where
      R: "tl_reverse N stf [] = Some (tr1, Inr st1)" and s': "st' = st1\<lparr>tl_r := 0\<rparr>"
      by (rule tl_sweep_Inr)
    from tl_reverse_ext[OF R] sweeps(4,5) f0(2) obtain e where
      "tl_chain N None stf e" "last_state stf e = st1"
      by auto
    from tl_chain_const[OF this(1)] this(2) s' show ?thesis by simp
  qed
  have N: "N = 15" using c sweeps(3) assms(3) by simp
  have acts: "actions tr = actions fwd @ [EndForward] @ concat (replicate m (actions sw))"
    unfolding sweeps(9) by (simp add: actions_concat_replicate)
  have fwd3: "ds = [NotFinalized, NotFinalized, AtForward 15] \<longrightarrow>
       actions fwd
       = [Configure True False, Forward 0 5, Write 0 ''disk'', Clear True True,
          Configure True False, Forward 5 10, Write 5 ''disk'', Clear True True,
          Configure True False, Forward 10 15, Write 10 ''disk'', Clear True True]"
  proof
    assume d: "ds = [NotFinalized, NotFinalized, AtForward 15]"
    have "fwd = fst (tl_forward st0 [NotFinalized, NotFinalized, AtForward 15] [])"
      using sweeps(1) d by simp
    then show "actions fwd
       = [Configure True False, Forward 0 5, Write 0 ''disk'', Clear True True,
          Configure True False, Forward 5 10, Write 5 ''disk'', Clear True True,
          Configure True False, Forward 10 15, Write 10 ''disk'', Clear True True]"
      unfolding f0(1) by (simp add: Let_def finalize_def)
  qed
  have rd: "0 \<le> n \<and> n < 15 \<and> (n mod 5 = 0 \<longrightarrow> tier = ''disk'' \<and> \<not> d)"
    if "Read n tier d \<in> set (actions sw)" for n tier d
  proof -
    from that have "Read n tier d \<in> set (actions ext)" unfolding sweeps(11) by simp
    from tl_chain_reads[OF _ this, of N None stf] sweeps(12)
    show ?thesis unfolding sweeps(5) N by (auto split: if_splits)
  qed
  have present: "Read (k * 5) ''disk'' False \<in> set (actions sw)" if "0 \<le> k" "k * 5 < 15" for k
    using sweeps(14) that unfolding N sweeps(11) by simp
  have c3: "{n. \<exists>tier d. Read n tier d \<in> set (actions sw) \<and> n mod 5 = 0} = {0, 5, 10}"
  proof (intro equalityI subsetI)
    fix n assume "n \<in> {n. \<exists>tier d. Read n tier d \<in> set (actions sw) \<and> n mod 5 = 0}"
    then obtain tier d where "Read n tier d \<in> set (actions sw)" "n mod 5 = 0" by auto
    then have "0 \<le> n \<and> n < 15 \<and> n mod 5 = 0" using rd[of n tier d] by simp
    then have "n = 0 \<or> n = 5 \<or> n = 10" by presburger
    then show "n \<in> {0, 5, 10}" by simp
  next
    fix n :: int assume "n \<in> {0, 5, 10}"
    then have "n = 0 * 5 \<or> n = 1 * 5 \<or> n = 2 * 5" by simp
    then have "Read n ''disk'' False \<in> set (actions sw) \<and> n mod 5 = 0"
      using present[of 0] present[of 1] present[of 2] by auto
    then show "n \<in> {n. \<exists>tier d. Read n tier d \<in> set (actions sw) \<and> n mod 5 = 0}" by auto
  qed
  have c4: "\<forall>n tier d. Read n tier d \<in> set (actions sw) \<longrightarrow>
                 0 \<le> n \<and> n < 15 \<and> (n mod 5 = 0 \<longrightarrow> tier = ''disk'' \<and> \<not> d)"
    using rd by blast
  show ?thesis
    by (intro exI[of _ "actions fwd"] exI[of _ "actions sw"] conjI acts fwd3 c3 c4)
qed

theorem twolevel_three_periods_witness:
  "\<exists>st0 tr st' fwd sw.
     twolevel_init 5 2 ''RAM'' False ''maximum'' = Inr st0
     \<and> twolevel_iter st0 [NotFinalized, NotFinalized, AtForward 15] 1 = Some (tr, Inr st')
     \<and> tl_max_n st' = Some 15
     \<and> actions tr = fwd @ [EndForward] @ concat (replicate 1 sw)
     \<and> fwd = [Configure True False, Forward 0 5, Write 0 ''disk'', Clear True True,
              Configure True False, Forward 5 10, Write 5 ''disk'', Clear True True,
              Configure True False, Forward 10 15, Write 10 ''disk'', Clear True True]
     \<and> {n. \<exists>tier d. Read n tier d \<in> set sw \<and> n mod 5 = 0} = {0, 5, 10}"
proof -
  have "case twolevel_init 5 2 ''RAM'' False ''maximum'' of
          Inr st0 \<Rightarrow>
            (case twolevel_iter st0 [NotFinalized, NotFinalized, AtForward 15] 1 of
               Some (tr, Inr st') \<Rightarrow> tl_max_n st' = Some 15
             | _ \<Rightarrow> False)
        | Inl e \<Rightarrow> False"
    by code_simp
  then obtain st0 tr st' where
    i: "twolevel_init 5 2 ''RAM'' False ''maximum'' = Inr st0"
    and r: "twolevel_iter st0 [NotFinalized, NotFinalized, AtForward 15] 1 = Some (tr, Inr st')"
    and m: "tl_max_n st' = Some 15"
    by (elim constructed2E drivenE)
  have "0 < (1::nat)" by simp
  from twolevel_three_periods[OF i r m this] obtain fwd sw where
    a: "actions tr = fwd @ [EndForward] @ concat (replicate 1 sw)"
    and b: "[NotFinalized, NotFinalized, AtForward 15] = [NotFinalized, NotFinalized, AtForward 15]
            \<longrightarrow>
            fwd = [Configure True False, Forward 0 5, Write 0 ''disk'', Clear True True,
                   Configure True False, Forward 5 10, Write 5 ''disk'', Clear True True,
                   Configure True False, Forward 10 15, Write 10 ''disk'', Clear True True]"
    and c: "{n. \<exists>tier d. Read n tier d \<in> set sw \<and> n mod 5 = 0} = {0, 5, 10}"
    by (elim exE conjE)
  have b': "fwd = [Configure True False, Forward 0 5, Write 0 ''disk'', Clear True True,
                   Configure True False, Forward 5 10, Write 5 ''disk'', Clear True True,
                   Configure True False, Forward 10 15, Write 10 ''disk'', Clear True True]"
    using b by simp
  show ?thesis
    by (intro exI[of _ st0] exI[of _ tr] exI[of _ st'] exI[of _ fwd] exI[of _ sw]
          conjI i r m a b' c)
qed


section \<open>Where configuration errors are raised\<close>

lemma n_advance_unknown_trajectory:
  fixes n s :: int
  assumes "2 \<le> s" "s < n - 1" "trajectory \<noteq> ''maximum''" "trajectory \<noteq> ''revolve''"
  shows "n_advance n s trajectory = Some (Inl ValueError)"
proof -
  have init: "s + 1 < ((s + 1) * (s + 2)) div 2"
  proof -
    have "2 * s \<le> s * s" using assms(1) by (intro mult_right_mono) auto
    moreover have "(s + 1) * (s + 2) = s * s + 3 * s + 2" by (simp add: algebra_simps)
    ultimately have "(s + 1) * (s + 2) = s * s + 3 * s + 2 \<and> 2 * s \<le> s * s" by simp
    then show ?thesis using assms(1) by (simp only:) linarith
  qed
  obtain t c2 c1 c0 where
    L: "n_advance_loop n s 2 1 (s + 1) (((s + 1) * (s + 2)) div 2) = Some (t, c2, c1, c0)"
    using n_advance_loop_total[of s 2 1 "s + 1" n "((s + 1) * (s + 2)) div 2"] assms init
    by auto
  have clamp: "max (min s (n - 1)) 1 = s" using assms by simp
  have n1: "\<not> n < 1" "\<not> s \<le> 0" "s \<noteq> 1" "s \<noteq> n - 1" using assms by auto
  show ?thesis
    unfolding n_advance_def Let_def clamp
    by (simp add: n1 L assms(3,4))
qed




section \<open>The allocation of tiers\<close>

lemma sorted_reverse_set: "set (sorted_reverse f xs) = set xs"
  by (simp add: sorted_reverse_def)

lemma sorted_reverse_length: "length (sorted_reverse f xs) = length xs"
  by (simp add: sorted_reverse_def)

lemma sorted_reverse_distinct: "distinct (sorted_reverse f xs) = distinct xs"
  by (simp add: sorted_reverse_def)

lemma sorted_reverse_descending:
  "sorted_wrt (\<lambda>p q. f p \<ge> f q) (sorted_reverse f xs)"
proof -
  have "sorted (map f (sort_key f (rev xs)))" by simp
  then have "sorted_wrt (\<lambda>p q. f p \<le> f q) (sort_key f (rev xs))"
    by (simp add: sorted_wrt_map)
  then show ?thesis by (simp add: sorted_reverse_def sorted_wrt_rev)
qed

lemma sorted_reverse_stable:
  "filter (\<lambda>y. f y = k) (sorted_reverse f xs) = filter (\<lambda>y. f y = k) xs"
proof -
  have "filter (\<lambda>y. f y = k) (sort_key f (rev xs)) = filter (\<lambda>y. f y = k) (rev xs)"
    by (rule sort_key_stable)
  then show ?thesis by (simp add: sorted_reverse_def rev_filter[symmetric])
qed

lemma sorted_reverse_equal_keys:
  assumes "\<forall>x \<in> set xs. f x = k"
  shows "sorted_reverse f xs = xs"
proof -
  have "filter (\<lambda>y. f y = k) (sorted_reverse f xs) = sorted_reverse f xs"
    using assms by (intro filter_True) (simp add: sorted_reverse_set)
  moreover have "filter (\<lambda>y. f y = k) xs = xs" using assms by (intro filter_True) simp
  ultimately show ?thesis using sorted_reverse_stable[of f k xs] by simp
qed

lemma assign_ram_length:
  "length (foldl (\<lambda>allocation i. allocation[i := t]) al is) = length al"
  by (induction "is" arbitrary: al) simp_all

lemma assign_ram_nth:
  "s < length al \<Longrightarrow>
     foldl (\<lambda>allocation i. allocation[i := t]) al is ! s = (if s \<in> set is then t else al ! s)"
proof (induction "is" arbitrary: al)
  case Nil
  then show ?case by simp
next
  case (Cons i "is")
  have "foldl (\<lambda>allocation i. allocation[i := t]) (al[i := t]) is ! s
          = (if s \<in> set is then t else al[i := t] ! s)"
    using Cons.prems by (intro Cons.IH) simp
  then show ?case using Cons.prems by (auto simp: nth_list_update)
qed

lemma additem_length: "additem xs i w = Inr ys \<Longrightarrow> length ys = length xs"
  by (auto simp: additem_def Let_def split: if_splits)

lemma action_handler_length:
  "action_handler snapshots ww rw dw a (ws, i) = Inr (ws', i') \<Longrightarrow> length ws' = length ws"
  by (cases a) (auto simp: Let_def split: if_splits sum.splits dest!: additem_length)

lemma dry_run_length:
  "dry_run snapshots ww rw dw as out (ws, i) = Inr (ws', i') \<Longrightarrow> length ws' = length ws"
proof (induction as arbitrary: ws i)
  case Nil
  then show ?case by (simp split: sum.splits)
next
  case (Cons a as)
  from Cons.prems obtain ws1 i1 where
    h: "action_handler snapshots ww rw dw a (ws, i) = Inr (ws1, i1)"
    by (auto split: sum.splits)
  have l1: "length ws1 = length ws" using action_handler_length[OF h] .
  show ?case
  proof (cases "\<exists>b. a = EndReverse b")
    case True
    then show ?thesis using Cons.prems h l1 by auto
  next
    case False
    then have "dry_run snapshots ww rw dw as out (ws1, i1) = Inr (ws', i')"
      using Cons.prems h by (cases a) auto
    from Cons.IH[OF this] l1 show ?thesis by simp
  qed
qed

lemma allocate_snapshots_Inr:
  assumes "allocate_snapshots max_n snapshots_in_ram snapshots_on_disk ww rw dw trajectory
             = Some (Inr (weights, allocation))"
  obtains cp tr out where
    "multistage_init max_n (snapshots_in_ram + snapshots_on_disk) 0 False trajectory
       = Some (Inr cp)"
    "multistage_iter cp = Some (tr, out)"
    "dry_run (snapshots_in_ram + snapshots_on_disk) ww rw dw (actions tr) out
       (replicate (nat (snapshots_in_ram + snapshots_on_disk)) 0, - 1) = Inr (weights, - 1)"
    "allocation = allocation_of weights (snapshots_in_ram + snapshots_on_disk) snapshots_in_ram"
proof -
  let ?S = "snapshots_in_ram + snapshots_on_disk"
  obtain r0 where I0: "multistage_init max_n ?S 0 False trajectory = Some r0"
    using assms
    by (cases "multistage_init max_n ?S 0 False trajectory")
       (auto simp: allocate_snapshots.simps[of max_n snapshots_in_ram snapshots_on_disk] Let_def)
  obtain cp where r0: "r0 = Inr cp"
    using assms I0
    by (cases r0)
       (auto simp: allocate_snapshots.simps[of max_n snapshots_in_ram snapshots_on_disk] Let_def)
  obtain tr out where R: "multistage_iter cp = Some (tr, out)"
    using assms I0 r0
    by (cases "multistage_iter cp")
       (auto simp: allocate_snapshots.simps[of max_n snapshots_in_ram snapshots_on_disk] Let_def)
  obtain w1 i1 where D: "dry_run ?S ww rw dw (actions tr) out (replicate (nat ?S) 0, - 1)
                           = Inr (w1, i1)"
    using assms I0 r0 R
    by (cases "dry_run ?S ww rw dw (actions tr) out (replicate (nat ?S) 0, - 1)")
       (auto simp: allocate_snapshots.simps[of max_n snapshots_in_ram snapshots_on_disk] Let_def)
  have "i1 = - 1 \<and> weights = w1 \<and> allocation = allocation_of w1 ?S snapshots_in_ram"
    using assms I0 r0 R D
    by (auto simp: allocate_snapshots.simps[of max_n snapshots_in_ram snapshots_on_disk] Let_def
             split: if_splits)
  then show ?thesis using that[of cp tr out] I0 r0 R D by simp
qed

section \<open>The dry run of the allocator\<close>

text \<open>A drive that ends in an exception has not yielded \<open>EndReverse\<close>.\<close>

fun is_end_reverse :: "action \<Rightarrow> bool" where
  "is_end_reverse (EndReverse b) = True"
| "is_end_reverse a = False"

definition no_end :: "'st trace \<Rightarrow> bool" where
  "no_end tr = list_all (\<lambda>e. \<not> is_end_reverse (fst e)) tr"

lemma no_end_simps [simp]:
  "no_end []"
  "no_end (xs @ ys) = (no_end xs \<and> no_end ys)"
  "no_end (x # xs) = (\<not> is_end_reverse (fst x) \<and> no_end xs)"
  by (simp_all add: no_end_def)

lemma ms_forward_no_end:
  "ms_forward N st tr = Some (tr', out) \<Longrightarrow> no_end tr \<Longrightarrow> no_end tr'"
proof (induction N st tr rule: ms_forward.induct)
  case (1 N st tr)
  show ?case
  proof (cases "ms_n st < N - 1")
    case False
    then show ?thesis using "1.prems" by (simp add: ms_forward.simps[of N st tr])
  next
    case True
    show ?thesis using "1.prems" True "1.IH"
      by (subst (asm) ms_forward.simps)
         (auto simp: Let_def split: option.splits sum.splits if_splits prod.splits)
  qed
qed

lemma ms_readvance_no_end:
  "ms_readvance N st tr = Some (tr', out) \<Longrightarrow> no_end tr \<Longrightarrow> no_end tr'"
proof (induction N st tr rule: ms_readvance.induct)
  case (1 N st tr)
  show ?case
  proof (cases "ms_n st < N - ms_r st - 1")
    case False
    then show ?thesis using "1.prems" by (simp add: ms_readvance.simps[of N st tr])
  next
    case True
    show ?thesis using "1.prems" True "1.IH"
      by (subst (asm) ms_readvance.simps)
         (auto simp: Let_def split: option.splits sum.splits if_splits prod.splits)
  qed
qed

lemma ms_restore_no_end:
  assumes "ms_restore N st tr = Some (tr', out)" "no_end tr"
  shows "no_end tr'"
  using assms
  by (auto simp: ms_restore_def Let_def
           split: option.splits sum.splits if_splits prod.splits
           dest!: ms_readvance_no_end)

lemma ms_adjoint_no_end:
  assumes "ms_adjoint st tr = (tr', st')" "no_end tr"
  shows "no_end tr'"
  using assms by (auto simp: ms_adjoint_def Let_def)

lemma ms_turn_no_end:
  assumes "ms_turn st tr = (tr', st')" "no_end tr"
  shows "no_end tr'"
  using assms by (auto simp: ms_turn_def Let_def)

lemma ms_reverse_no_end:
  "ms_reverse N st tr = Some (tr', out) \<Longrightarrow> no_end tr \<Longrightarrow> no_end tr'"
proof (induction N st tr rule: ms_reverse.induct)
  case (1 N st tr)
  show ?case
  proof (cases "ms_r st < N")
    case False
    then show ?thesis using "1.prems" by (simp add: ms_reverse.simps[of N st tr])
  next
    case True
    show ?thesis
    proof (cases "ms_restore N st tr")
      case None
      then show ?thesis using "1.prems"(1) True by (simp add: ms_reverse.simps[of N st tr])
    next
      case (Some res)
      obtain tr1 out1 where res: "res = (tr1, out1)" by (cases res)
      have n1: "no_end tr1" using ms_restore_no_end[OF Some[unfolded res] "1.prems"(2)] .
      show ?thesis
      proof (cases out1)
        case (Inl e)
        then show ?thesis using "1.prems"(1) True Some res n1
          by (simp add: ms_reverse.simps[of N st tr])
      next
        case (Inr st1)
        obtain tr2 st2 where A: "ms_adjoint st1 tr1 = (tr2, st2)" by (cases "ms_adjoint st1 tr1")
        have n2: "no_end tr2" using ms_adjoint_no_end[OF A n1] .
        have L: "ms_reverse N st2 tr2 = Some (tr', out)"
          using "1.prems"(1) True Some res Inr A by (simp add: ms_reverse.simps[of N st tr])
        show ?thesis
          using "1.IH"[OF True Some[unfolded res Inr] refl refl A[symmetric] L n2] .
      qed
    qed
  qed
qed

lemma multistage_iter_no_end:
  assumes "multistage_iter st = Some (tr, Inl e)"
  shows "no_end tr"
proof (cases "ms_max_n st")
  case None
  then show ?thesis using assms by (simp add: multistage_iter_def)
next
  case (Some N)
  show ?thesis
  proof (cases "ms_forward N st []")
    case None
    then show ?thesis using assms Some by (simp add: multistage_iter_def)
  next
    case F: (Some res)
    obtain tr1 out1 where res: "res = (tr1, out1)" by (cases res)
    have n1: "no_end tr1" using ms_forward_no_end[OF F[unfolded res]] by simp
    show ?thesis
    proof (cases out1)
      case (Inl e1)
      then show ?thesis using assms Some F res n1 by (simp add: multistage_iter_def)
    next
      case (Inr st1)
      obtain tr2 st2 where T: "ms_turn st1 tr1 = (tr2, st2)" by (cases "ms_turn st1 tr1")
      have n2: "no_end tr2" using ms_turn_no_end[OF T n1] .
      show ?thesis
      proof (cases "ms_n st1 \<noteq> N - 1")
        case True
        then show ?thesis using assms Some F res Inr n1 by (simp add: multistage_iter_def)
      next
        case False
        show ?thesis
        proof (cases "ms_reverse N st2 tr2")
          case None
          then show ?thesis using assms Some F res Inr T False
            by (simp add: multistage_iter_def)
        next
          case R: (Some res3)
          obtain tr3 out3 where res3: "res3 = (tr3, out3)" by (cases res3)
          have n3: "no_end tr3" using ms_reverse_no_end[OF R[unfolded res3] n2] .
          show ?thesis
          proof (cases out3)
            case (Inl e3)
            then show ?thesis using assms Some F res Inr T False R res3 n3
              by (simp add: multistage_iter_def)
          next
            case st3: (Inr st3)
            have "ms_end N st3 tr3 = Some (tr, Inl e)"
              using assms Some F res Inr T False R res3 st3
              by (simp add: multistage_iter_def)
            then have "tr = tr3" by (auto simp: ms_end_def Let_def split: if_splits)
            then show ?thesis using n3 by simp
          qed
        qed
      qed
    qed
  qed
qed

lemma dry_run_no_end:
  "list_all (\<lambda>a. \<not> is_end_reverse a) as \<Longrightarrow>
     dry_run snapshots ww rw dw as (Inl e :: error + 'st) acc \<noteq> Inr res"
proof (induction as arbitrary: acc)
  case Nil
  then show ?case by simp
next
  case (Cons a as)
  show ?case
  proof (cases "action_handler snapshots ww rw dw a acc")
    case (Inl e')
    then show ?thesis by simp
  next
    case (Inr acc1)
    have "\<not> is_end_reverse a" using Cons.prems by simp
    then have "dry_run snapshots ww rw dw (a # as) (Inl e :: error + 'st) acc
                 = dry_run snapshots ww rw dw as (Inl e :: error + 'st) acc1"
      using Inr by (cases a) simp_all
    then show ?thesis using Cons.IH[of acc1] Cons.prems by simp
  qed
qed

text \<open>The weight one operation adds to slot \<open>i\<close>, when the stack is \<open>stack\<close> before it:
  a \<open>Write\<close> pushes onto position \<open>length stack\<close>, a \<open>Read\<close> reads the top, position
  \<open>length stack - 1\<close>, and frees it when \<open>delete\<close> is set.\<close>

fun operation_weight :: "real \<Rightarrow> real \<Rightarrow> real \<Rightarrow> int list \<Rightarrow> action \<Rightarrow> nat \<Rightarrow> real" where
  "operation_weight ww rw dw stack (Write n tier) i = (if length stack = i then ww else 0)"
| "operation_weight ww rw dw stack (Read n tier delete) i =
     (if length stack = Suc i then rw + (if delete then dw else 0) else 0)"
| "operation_weight ww rw dw stack a i = 0"

text \<open>The weight a trace of the schedule adds to slot \<open>i\<close>: \<open>s\<close> is the state before the
  first action, so that the stack before each operation is the stack of the schedule
  at the \<open>yield\<close> before it.\<close>

fun slot_weight :: "real \<Rightarrow> real \<Rightarrow> real \<Rightarrow> multistage \<Rightarrow> multistage trace \<Rightarrow> nat \<Rightarrow> real" where
  "slot_weight ww rw dw s [] i = 0"
| "slot_weight ww rw dw s ((a, s') # tr) i =
     operation_weight ww rw dw (ms_snapshots s) a i + slot_weight ww rw dw s' tr i"

lemma slot_weight_append:
  "slot_weight ww rw dw s (xs @ ys) i
     = slot_weight ww rw dw s xs i + slot_weight ww rw dw (last_state s xs) ys i"
  by (induction xs arbitrary: s) auto

lemma additem_Inr:
  assumes "additem xs i w = Inr ys" "0 \<le> i"
  shows "nat i < length xs" "ys = xs[nat i := xs ! nat i + w]"
  using assms by (auto simp: additem_def Let_def split: if_splits)

lemma action_handler_step:
  assumes H: "action_handler snapshots ww rw dw a (w0, i0) = Inr (w1, i1)"
    and st: "ms_step p s a s'"
    and i0: "i0 = int (length (ms_snapshots s)) - 1"
  shows "i1 = int (length (ms_snapshots s')) - 1 \<and> length w1 = length w0
       \<and> (\<forall>k. (k < length w0 \<longrightarrow> w1 ! k = w0 ! k + operation_weight ww rw dw (ms_snapshots s) a k)
              \<and> (length w0 \<le> k \<longrightarrow> operation_weight ww rw dw (ms_snapshots s) a k = 0))"
proof (cases a)
  case (Write n tier)
  from H obtain
    A: "additem w0 (i0 + 1) ww = Inr w1" and i1: "i1 = i0 + 1"
    by (auto simp: Write Let_def split: if_splits sum.splits)
  have nn: "0 \<le> i0 + 1" using i0 by simp
  note a = additem_Inr[OF A nn]
  have sn: "ms_snapshots s' = ms_snapshots s @ [n]" using st by (simp add: ms_step_def Write)
  have idx: "nat (i0 + 1) = length (ms_snapshots s)" using i0 by simp
  show ?thesis using a sn i1 i0 unfolding idx by (auto simp: Write nth_list_update)
next
  case (Read n tier delete)
  have ne: "ms_snapshots s \<noteq> []" using st by (simp add: ms_step_def Read)
  then have nn: "0 \<le> i0" using i0 by (cases "ms_snapshots s") auto
  have idx: "length (ms_snapshots s) = Suc (nat i0)" using i0 ne
    by (cases "ms_snapshots s") auto
  from H nn obtain wa where A: "additem w0 i0 rw = Inr wa"
    by (auto simp: Read split: if_splits sum.splits)
  note a = additem_Inr[OF A nn]
  have ow: "operation_weight ww rw dw (ms_snapshots s) a k
              = (if k = nat i0 then rw + (if delete then dw else 0) else 0)" for k
    using idx by (auto simp: Read)
  have z: "k \<noteq> nat i0" if "length w0 \<le> k" for k using a(1) that by simp
  show ?thesis
  proof (cases delete)
    case True
    from H nn A True obtain B: "additem wa i0 dw = Inr w1" and i1: "i1 = i0 - 1"
      by (auto simp: Read split: if_splits sum.splits)
    note b = additem_Inr[OF B nn]
    have sn: "ms_snapshots s' = butlast (ms_snapshots s)"
      using st True by (simp add: ms_step_def Read)
    have e: "i1 = int (length (ms_snapshots s')) - 1"
      using sn i1 i0 ne by (simp add: int_length_butlast)
    have w: "length w1 = length w0" using a b by simp
    have v: "w1 ! k = w0 ! k + (if k = nat i0 then rw + dw else 0)" if "k < length w0" for k
      using a b that by (simp add: nth_list_update)
    show ?thesis using e w v z True by (simp add: ow)
  next
    case False
    from H nn A False have r: "w1 = wa" "i1 = i0"
      by (auto simp: Read split: if_splits sum.splits)
    have sn: "ms_snapshots s' = ms_snapshots s"
      using st False by (simp add: ms_step_def Read)
    have e: "i1 = int (length (ms_snapshots s')) - 1"
      using sn r i0 by simp
    have w: "length w1 = length w0" using a r by simp
    have v: "w1 ! k = w0 ! k + (if k = nat i0 then rw else 0)" if "k < length w0" for k
      using a r that by (simp add: nth_list_update)
    show ?thesis using e w v z False by (simp add: ow)
  qed
qed (use H st i0 in \<open>auto simp: ms_step_def\<close>)

lemma dry_run_chain:
  "ms_chain p s body \<Longrightarrow> i0 = int (length (ms_snapshots s)) - 1 \<Longrightarrow>
   dry_run snapshots ww rw dw (actions body @ rest) out (w0, i0) = Inr res \<Longrightarrow>
   \<exists>w1. dry_run snapshots ww rw dw rest out
            (w1, int (length (ms_snapshots (last_state s body))) - 1) = Inr res
        \<and> length w1 = length w0
        \<and> (\<forall>k. (k < length w0 \<longrightarrow> w1 ! k = w0 ! k + slot_weight ww rw dw s body k)
               \<and> (length w0 \<le> k \<longrightarrow> slot_weight ww rw dw s body k = 0))"
proof (induction body arbitrary: p s w0 i0)
  case Nil
  then show ?case by (intro exI[of _ w0]) simp
next
  case (Cons x body)
  obtain a s' where x: "x = (a, s')" by (cases x)
  have st: "ms_step p s a s'" and ch: "ms_chain (Some a) s' body"
    using Cons.prems(1) by (simp_all add: x)
  have ne: "\<not> is_end_reverse a" using st by (cases a) (simp_all add: ms_step_def)
  obtain w1 i1 where
    H: "action_handler snapshots ww rw dw a (w0, i0) = Inr (w1, i1)"
    and D: "dry_run snapshots ww rw dw (actions body @ rest) out (w1, i1) = Inr res"
    using Cons.prems(3) ne
    by (cases "action_handler snapshots ww rw dw a (w0, i0)"; cases a)
       (auto simp: x)
  note step = action_handler_step[OF H st Cons.prems(2)]
  from Cons.IH[OF ch conjunct1[OF step] D] obtain w2 where
    D2: "dry_run snapshots ww rw dw rest out
            (w2, int (length (ms_snapshots (last_state s' body))) - 1) = Inr res"
    and l2: "length w2 = length w1"
    and k2: "\<forall>k. (k < length w1 \<longrightarrow> w2 ! k = w1 ! k + slot_weight ww rw dw s' body k)
               \<and> (length w1 \<le> k \<longrightarrow> slot_weight ww rw dw s' body k = 0)"
    by blast
  show ?case
    using D2 l2 k2 step by (intro exI[of _ w2]) (auto simp: x)
qed

text \<open>The tiers named by the \<open>Write\<close> and \<open>Read\<close> actions of a list.\<close>

fun tiers :: "action list \<Rightarrow> string list" where
  "tiers [] = []"
| "tiers (Write n tier # as) = tier # tiers as"
| "tiers (Read n tier delete # as) = tier # tiers as"
| "tiers (a # as) = tiers as"

lemma dry_schedule_storage:
  assumes "multistage_init max_n snapshots 0 keep trajectory = Some (Inr cp)"
  shows "ms_storage cp = replicate (nat snapshots) ''RAM''"
  using assms
  by (auto simp: multistage_init.simps[of max_n snapshots 0 keep trajectory] base_init_def
           split: if_splits)

lemma actions_no_end:
  "no_end tr \<Longrightarrow> list_all (\<lambda>a. \<not> is_end_reverse a) (actions tr)"
  by (simp add: no_end_def actions_def list_all_iff)






end
